theory Spec2Isabelle
  imports Main
begin

section \<open>Errors and strings\<close>

text \<open>
  A Go \<open>error\<close> value. \<open>ErrorString\<close> is what \<open>errors.New\<close> and a \<open>fmt.Errorf\<close>
  without \<open>%w\<close> build; \<open>WrapError\<close> is what \<open>fmt.Errorf\<close> with \<open>%w\<close> builds: the
  formatted message together with the wrapped cause.
\<close>

datatype error = ErrorString string | WrapError string error

fun Error :: "error \<Rightarrow> string" where
  "Error (ErrorString s) = s"
| "Error (WrapError s cause) = s"

text \<open>\<open>fmt.Errorf(prefix + "%w", err)\<close>: every wrapping call of the package has this shape.\<close>

definition Errorf_w :: "string \<Rightarrow> error \<Rightarrow> error" where
  "Errorf_w prefix err = WrapError (prefix @ Error err) err"

text \<open>\<open>fmt.Sprintf("%s:%s", namespace, name)\<close>, the composite key.\<close>

definition Sprintf_key :: "string \<Rightarrow> string \<Rightarrow> string" where
  "Sprintf_key namespace name = namespace @ '':'' @ name"

text \<open>
  \<open>strings.Split(s, sep)\<close> for a separator of one byte (the package only splits at
  \<open>":"\<close>): the pieces between the separators, one more than there are separators.
\<close>

fun Split :: "string \<Rightarrow> char \<Rightarrow> string list" where
  "Split [] sep = [[]]"
| "Split (c # cs) sep =
     (if c = sep then [] # Split cs sep
      else (c # hd (Split cs sep)) # tl (Split cs sep))"

text \<open>\<open>strings.Join(elems, sep)\<close>.\<close>

fun Join :: "string list \<Rightarrow> string \<Rightarrow> string" where
  "Join [] sep = []"
| "Join [x] sep = x"
| "Join (x # y # ys) sep = x @ sep @ Join (y # ys) sep"

text \<open>\<open>strings.Contains(s, sub)\<close>, used to state what a log text contains.\<close>

fun Contains :: "string \<Rightarrow> string \<Rightarrow> bool" where
  "Contains [] sub = (sub = [])"
| "Contains (c # cs) sub = (take (length sub) (c # cs) = sub \<or> Contains cs sub)"

text \<open>Reading a Go \<open>map[string]bool\<close>: a missing key reads as \<open>false\<close>.\<close>

definition map_index :: "(string \<rightharpoonup> bool) \<Rightarrow> string \<Rightarrow> bool" where
  "map_index m k = (case m k of None \<Rightarrow> False | Some b \<Rightarrow> b)"

section \<open>The migration interfaces\<close>

text \<open>
  The world \<open>'w\<close> is everything outside the manager that a call can read or change: the
  database, the lock server, the application's own state. Every interface method takes the
  world and returns its result with the world after the call. A call is taken to return:
  a callee that panics or never returns is outside the model.
\<close>

record 'w MigrationStorage =
  GetAppliedMigrations :: "'w \<Rightarrow> (error + string list) \<times> 'w"
  MarkMigrationApplied :: "string \<Rightarrow> string \<Rightarrow> 'w \<Rightarrow> error option \<times> 'w"
  MarkMigrationFailed :: "string \<Rightarrow> string \<Rightarrow> string \<Rightarrow> 'w \<Rightarrow> error option \<times> 'w"
  MarkMigrationSkipped :: "string \<Rightarrow> string \<Rightarrow> 'w \<Rightarrow> error option \<times> 'w"

record 'w LockProvider =
  Lock :: "string \<Rightarrow> int \<Rightarrow> 'w \<Rightarrow> (bool \<times> error option) \<times> 'w"
  Unlock :: "string \<Rightarrow> 'w \<Rightarrow> error option \<times> 'w"

text \<open>
  The execution context. Its \<open>storage\<close> field is set by the manager and never read, so
  the model keeps the log lines only.
\<close>

record Migration =
  logStrings :: "string list"

text \<open>\<open>Log\<close> takes the line already formatted (the value of \<open>fmt.Sprintf(format, args...)\<close>).\<close>

definition Log :: "Migration \<Rightarrow> string \<Rightarrow> Migration" where
  "Log m line = m\<lparr>logStrings := logStrings m @ [line]\<rparr>"

definition LogString :: "Migration \<Rightarrow> string" where
  "LogString m = Join (logStrings m) ''\<newline>''"

text \<open>
  A migration function is opaque code of type \<open>func(*Migration) error\<close>. The fields of
  \<open>Migration\<close> are unexported, so all a registered function can do to the context is call
  \<open>Log\<close>. The model hands the function the context and the world, and gets back the lines
  it logged (in order), the error it returned and the world it left.
\<close>

type_synonym 'w MigrationFunc = "Migration \<Rightarrow> 'w \<Rightarrow> (string list \<times> error option) \<times> 'w"

record 'w MigrationItem =
  ItemNamespace :: string
  ItemName :: string
  Func :: "'w MigrationFunc"

record 'w MigrationManager =
  storage :: "'w MigrationStorage"
  lockProvider :: "'w LockProvider"
  migrations :: "'w MigrationItem list"

definition NewMigrationManager :: "'w MigrationStorage \<Rightarrow> 'w LockProvider \<Rightarrow> 'w MigrationManager" where
  "NewMigrationManager st lp = \<lparr>storage = st, lockProvider = lp, migrations = []\<rparr>"

definition Register :: "'w MigrationManager \<Rightarrow> string \<Rightarrow> string \<Rightarrow> 'w MigrationFunc \<Rightarrow> 'w MigrationManager" where
  "Register m namespace name fn =
     m\<lparr>migrations := migrations m @ [\<lparr>ItemNamespace = namespace, ItemName = name, Func = fn\<rparr>]\<rparr>"

section \<open>The calls a run makes\<close>

text \<open>
  Each call the manager makes on an interface or on a migration function is recorded, in
  order, with its arguments and its result. A migration function is identified by the
  position of its registration in \<open>migrations\<close> (the slice holds pointers, so two
  registrations of the same namespace and name are still two items).
\<close>

datatype event =
    Ev_Lock string int bool "error option"
  | Ev_Unlock string "error option"
  | Ev_GetAppliedMigrations "error + string list"
  | Ev_MarkMigrationSkipped string string "error option"
  | Ev_MarkMigrationApplied string string "error option"
  | Ev_MarkMigrationFailed string string string "error option"
  | Ev_Func nat "string list" "error option"

fun invoked_index :: "event \<Rightarrow> nat option" where
  "invoked_index (Ev_Func i ls r) = Some i"
| "invoked_index ev = None"

text \<open>The registrations whose function was invoked, in the order of the invocations.\<close>

definition invocations :: "event list \<Rightarrow> nat list" where
  "invocations tr = List.map_filter invoked_index tr"

fun is_unlock :: "event \<Rightarrow> bool" where
  "is_unlock (Ev_Unlock k r) = True"
| "is_unlock ev = False"

fun is_write :: "event \<Rightarrow> bool" where
  "is_write (Ev_MarkMigrationSkipped ns n r) = True"
| "is_write (Ev_MarkMigrationApplied ns n r) = True"
| "is_write (Ev_MarkMigrationFailed ns n msg r) = True"
| "is_write ev = False"

section \<open>RunMigrations\<close>

text \<open>The first loop over the applied keys: \<open>appliedSet[name] = true\<close>.\<close>

fun build_appliedSet :: "string list \<Rightarrow> (string \<rightharpoonup> bool) \<Rightarrow> (string \<rightharpoonup> bool)" where
  "build_appliedSet [] appliedSet = appliedSet"
| "build_appliedSet (name # rest) appliedSet = build_appliedSet rest (appliedSet(name \<mapsto> True))"

text \<open>The second loop: a key that splits at \<open>":"\<close> into exactly two parts marks its first part.\<close>

fun build_namespaceHasRecords :: "string list \<Rightarrow> (string \<rightharpoonup> bool) \<Rightarrow> (string \<rightharpoonup> bool)" where
  "build_namespaceHasRecords [] namespaceHasRecords = namespaceHasRecords"
| "build_namespaceHasRecords (name # rest) namespaceHasRecords =
     (let parts = Split name CHR '':'' in
      if length parts = 2
      then build_namespaceHasRecords rest (namespaceHasRecords(parts ! 0 \<mapsto> True))
      else build_namespaceHasRecords rest namespaceHasRecords)"

text \<open>
  The loop that marks migrations of a namespace without records as skipped. It returns the
  error (if it stopped), both maps, the world and the calls made.
\<close>

fun bootstrap_pass ::
  "'w MigrationStorage \<Rightarrow> 'w MigrationItem list \<Rightarrow> (string \<rightharpoonup> bool) \<Rightarrow> (string \<rightharpoonup> bool) \<Rightarrow> 'w
   \<Rightarrow> error option \<times> (string \<rightharpoonup> bool) \<times> (string \<rightharpoonup> bool) \<times> 'w \<times> event list" where
  "bootstrap_pass st [] appliedSet namespaceHasRecords w =
     (None, appliedSet, namespaceHasRecords, w, [])"
| "bootstrap_pass st (item # rest) appliedSet namespaceHasRecords w =
     (let key = Sprintf_key (ItemNamespace item) (ItemName item) in
      if \<not> map_index namespaceHasRecords (ItemNamespace item) \<and> \<not> map_index appliedSet key
      then
        (case MarkMigrationSkipped st (ItemNamespace item) (ItemName item) w of
           (Some err, w1) \<Rightarrow>
             (Some (Errorf_w (''failed to mark migration '' @ key @ '' as skipped: '') err),
              appliedSet, namespaceHasRecords, w1,
              [Ev_MarkMigrationSkipped (ItemNamespace item) (ItemName item) (Some err)])
         | (None, w1) \<Rightarrow>
             (case bootstrap_pass st rest (appliedSet(key \<mapsto> True))
                     (namespaceHasRecords(ItemNamespace item \<mapsto> True)) w1 of
                (res, appliedSet', namespaceHasRecords', w2, evs) \<Rightarrow>
                  (res, appliedSet', namespaceHasRecords', w2,
                   Ev_MarkMigrationSkipped (ItemNamespace item) (ItemName item) None # evs)))
      else bootstrap_pass st rest appliedSet namespaceHasRecords w)"

text \<open>
  The loop that executes what is not applied. \<open>now\<close> reads \<open>time.Now().Format(time.RFC3339)\<close>
  in a world; \<open>i\<close> is the position of the first item of the list in \<open>migrations\<close>.
\<close>

fun execution_pass ::
  "'w MigrationStorage \<Rightarrow> ('w \<Rightarrow> string) \<Rightarrow> (string \<rightharpoonup> bool) \<Rightarrow> nat \<Rightarrow> 'w MigrationItem list \<Rightarrow> 'w
   \<Rightarrow> error option \<times> 'w \<times> event list" where
  "execution_pass st now appliedSet i [] w = (None, w, [])"
| "execution_pass st now appliedSet i (item # rest) w =
     (let key = Sprintf_key (ItemNamespace item) (ItemName item) in
      if map_index appliedSet key then execution_pass st now appliedSet (Suc i) rest w
      else
        (let migration = \<lparr>logStrings = []\<rparr>;
             migration = Log migration
               (''Starting migration: '' @ ItemNamespace item @ '':'' @ ItemName item @ '' at '' @ now w)
         in case Func item migration w of
           ((ls, Some err), w1) \<Rightarrow>
             (let migration = foldl Log migration ls;
                  errorMsg = ''Migration failed: '' @ Error err @ ''\<newline>Logs:\<newline>'' @ LogString migration
              in case MarkMigrationFailed st (ItemNamespace item) (ItemName item) errorMsg w1 of
                (r, w2) \<Rightarrow>
                  (Some (Errorf_w (''migration '' @ ItemNamespace item @ '':'' @ ItemName item @ '' failed: '') err),
                   w2,
                   [Ev_Func i ls (Some err),
                    Ev_MarkMigrationFailed (ItemNamespace item) (ItemName item) errorMsg r]))
         | ((ls, None), w1) \<Rightarrow>
             (let migration = foldl Log migration ls;
                  migration = Log migration
                    (''Migration completed: '' @ ItemNamespace item @ '':'' @ ItemName item @ '' at '' @ now w1)
              in case MarkMigrationApplied st (ItemNamespace item) (ItemName item) w1 of
                (Some err, w2) \<Rightarrow>
                  (Some (Errorf_w (''failed to mark migration '' @ ItemNamespace item @ '':'' @ ItemName item @ '' as applied: '') err),
                   w2,
                   [Ev_Func i ls None,
                    Ev_MarkMigrationApplied (ItemNamespace item) (ItemName item) (Some err)])
              | (None, w2) \<Rightarrow>
                  (case execution_pass st now appliedSet (Suc i) rest w2 of
                     (res, w3, evs) \<Rightarrow>
                       (res, w3,
                        Ev_Func i ls None
                        # Ev_MarkMigrationApplied (ItemNamespace item) (ItemName item) None # evs)))))"

definition lockKey :: string where
  "lockKey = ''migrate_lock''"

definition lockTimeout :: int where
  "lockTimeout = 60"

text \<open>The body of \<open>RunMigrations\<close> after the \<open>defer\<close>: what runs while the lock is held.\<close>

definition run_locked ::
  "('w \<Rightarrow> string) \<Rightarrow> 'w MigrationManager \<Rightarrow> 'w \<Rightarrow> error option \<times> 'w \<times> event list" where
  "run_locked now m w =
     (case GetAppliedMigrations (storage m) w of
        (Inl err, w1) \<Rightarrow>
          (Some (Errorf_w ''failed to get applied migrations: '' err), w1,
           [Ev_GetAppliedMigrations (Inl err)])
      | (Inr appliedMigrations, w1) \<Rightarrow>
          (let appliedSet = build_appliedSet appliedMigrations Map.empty;
               namespaceHasRecords = build_namespaceHasRecords appliedMigrations Map.empty
           in case bootstrap_pass (storage m) (migrations m) appliedSet namespaceHasRecords w1 of
             (Some err, appliedSet', namespaceHasRecords', w2, evs1) \<Rightarrow>
               (Some err, w2, Ev_GetAppliedMigrations (Inr appliedMigrations) # evs1)
           | (None, appliedSet', namespaceHasRecords', w2, evs1) \<Rightarrow>
               (case execution_pass (storage m) now appliedSet' 0 (migrations m) w2 of
                  (res, w3, evs2) \<Rightarrow>
                    (res, w3, Ev_GetAppliedMigrations (Inr appliedMigrations) # evs1 @ evs2))))"

text \<open>
  \<open>RunMigrations\<close>: the error returned (\<open>None\<close> is \<open>nil\<close>), the world afterwards and the
  calls made. The deferred \<open>Unlock\<close> runs after the body on every return once the lock is
  held; its error is dropped. The \<open>slog.Info\<close> lines are not modelled.
\<close>

definition RunMigrations ::
  "('w \<Rightarrow> string) \<Rightarrow> 'w MigrationManager \<Rightarrow> 'w \<Rightarrow> error option \<times> 'w \<times> event list" where
  "RunMigrations now m w =
     (case Lock (lockProvider m) lockKey lockTimeout w of
        ((locked, Some err), w1) \<Rightarrow>
          (Some (Errorf_w ''failed to acquire migration lock: '' err), w1,
           [Ev_Lock lockKey lockTimeout locked (Some err)])
      | ((locked, None), w1) \<Rightarrow>
          if \<not> locked
          then (Some (ErrorString ''migration is already running''), w1,
                [Ev_Lock lockKey lockTimeout locked None])
          else
            (case run_locked now m w1 of
               (res, w2, evs) \<Rightarrow>
                 (case Unlock (lockProvider m) lockKey w2 of
                    (ur, w3) \<Rightarrow>
                      (res, w3,
                       Ev_Lock lockKey lockTimeout locked None # evs @ [Ev_Unlock lockKey ur]))))"

section \<open>The default backends\<close>

text \<open>
  The row of the table \<open>migration_logs\<close>. \<open>AppliedAt\<close> is the reading of the clock.
\<close>

record MigrationLog =
  ID :: nat
  Migration :: string
  Namespace :: string
  AppliedAt :: nat
  Logs :: string
  Success :: bool

text \<open>
  The world of the default backends: the rows of the log table in insertion order, the
  keys of the lock server with their value and time to live, and the clock. The database
  and the lock server are external services whose calls can fail: \<open>db_errors\<close> and
  \<open>redis_errors\<close> schedule the outcome of the calls to come, one entry per call, and a
  call beyond the schedule succeeds. The expiry of a lock key is not modelled. Further
  state of the application lives in the extension of the record.
\<close>

record world =
  migration_logs :: "MigrationLog list"
  db_errors :: "error option list"
  redis_keys :: "string \<rightharpoonup> string \<times> int"
  redis_errors :: "error option list"
  clock :: nat

definition db_call :: "'a world_scheme \<Rightarrow> error option \<times> 'a world_scheme" where
  "db_call w =
     (case db_errors w of
        [] \<Rightarrow> (None, w)
      | r # rs \<Rightarrow> (r, w\<lparr>db_errors := rs\<rparr>))"

text \<open>\<open>database.Database().AutoMigrate(&MigrationLog{})\<close>: provisions the table, no row changes.\<close>

definition db_AutoMigrate :: "'a world_scheme \<Rightarrow> error option \<times> 'a world_scheme" where
  "db_AutoMigrate w = db_call w"

text \<open>\<open>database.Database().Where("success = ?", true).Find(&logs)\<close>.\<close>

definition db_Find_success :: "'a world_scheme \<Rightarrow> (error + MigrationLog list) \<times> 'a world_scheme" where
  "db_Find_success w =
     (case db_call w of
        (Some err, w1) \<Rightarrow> (Inl err, w1)
      | (None, w1) \<Rightarrow> (Inr (filter Success (migration_logs w1)), w1))"

text \<open>
  The column \<open>Namespace\<close> is declared \<open>gorm:"size:120;default:'app'"\<close>. On insert gorm
  leaves out a field that has a default and holds its zero value, so a row created with an
  empty namespace is stored with the namespace \<open>app\<close>.
\<close>

definition stored_namespace :: "string \<Rightarrow> string" where
  "stored_namespace namespace = (if namespace = [] then ''app'' else namespace)"

text \<open>\<open>database.Database().Create(&log)\<close>: appends the row under a fresh primary key.\<close>

definition db_Create :: "MigrationLog \<Rightarrow> 'a world_scheme \<Rightarrow> error option \<times> 'a world_scheme" where
  "db_Create log w =
     (case db_call w of
        (Some err, w1) \<Rightarrow> (Some err, w1)
      | (None, w1) \<Rightarrow>
          (None, w1\<lparr>migration_logs :=
                      migration_logs w1
                      @ [log\<lparr>ID := Suc (length (migration_logs w1)),
                              Namespace := stored_namespace (Namespace log)\<rparr>]\<rparr>))"

definition DefaultDatabaseMigrationStorage_GetAppliedMigrations ::
  "'a world_scheme \<Rightarrow> (error + string list) \<times> 'a world_scheme" where
  "DefaultDatabaseMigrationStorage_GetAppliedMigrations w =
     (case db_AutoMigrate w of
        (Some err, w1) \<Rightarrow> (Inl err, w1)
      | (None, w1) \<Rightarrow>
          (case db_Find_success w1 of
             (Inl err, w2) \<Rightarrow> (Inl err, w2)
           | (Inr logs, w2) \<Rightarrow>
               (Inr (map (\<lambda>log. Sprintf_key (Namespace log) (Migration log)) logs), w2)))"

definition DefaultDatabaseMigrationStorage_MarkMigrationApplied ::
  "string \<Rightarrow> string \<Rightarrow> 'a world_scheme \<Rightarrow> error option \<times> 'a world_scheme" where
  "DefaultDatabaseMigrationStorage_MarkMigrationApplied namespace name w =
     (case db_AutoMigrate w of
        (Some err, w1) \<Rightarrow> (Some err, w1)
      | (None, w1) \<Rightarrow>
          db_Create \<lparr>ID = 0, Migration = name, Namespace = namespace, AppliedAt = clock w1,
                     Logs = '''', Success = True\<rparr> w1)"

definition DefaultDatabaseMigrationStorage_MarkMigrationFailed ::
  "string \<Rightarrow> string \<Rightarrow> string \<Rightarrow> 'a world_scheme \<Rightarrow> error option \<times> 'a world_scheme" where
  "DefaultDatabaseMigrationStorage_MarkMigrationFailed namespace name errorMsg w =
     (case db_AutoMigrate w of
        (Some err, w1) \<Rightarrow> (Some err, w1)
      | (None, w1) \<Rightarrow>
          db_Create \<lparr>ID = 0, Migration = name, Namespace = namespace, AppliedAt = clock w1,
                     Logs = errorMsg, Success = False\<rparr> w1)"

definition DefaultDatabaseMigrationStorage_MarkMigrationSkipped ::
  "string \<Rightarrow> string \<Rightarrow> 'a world_scheme \<Rightarrow> error option \<times> 'a world_scheme" where
  "DefaultDatabaseMigrationStorage_MarkMigrationSkipped namespace name w =
     (case db_AutoMigrate w of
        (Some err, w1) \<Rightarrow> (Some err, w1)
      | (None, w1) \<Rightarrow>
          db_Create \<lparr>ID = 0, Migration = name, Namespace = namespace, AppliedAt = clock w1,
                     Logs = ''skip'', Success = True\<rparr> w1)"

definition DefaultDatabaseMigrationStorage :: "'a world_scheme MigrationStorage" where
  "DefaultDatabaseMigrationStorage =
     \<lparr>GetAppliedMigrations = DefaultDatabaseMigrationStorage_GetAppliedMigrations,
      MarkMigrationApplied = DefaultDatabaseMigrationStorage_MarkMigrationApplied,
      MarkMigrationFailed = DefaultDatabaseMigrationStorage_MarkMigrationFailed,
      MarkMigrationSkipped = DefaultDatabaseMigrationStorage_MarkMigrationSkipped\<rparr>"

definition redis_call :: "'a world_scheme \<Rightarrow> error option \<times> 'a world_scheme" where
  "redis_call w =
     (case redis_errors w of
        [] \<Rightarrow> (None, w)
      | r # rs \<Rightarrow> (r, w\<lparr>redis_errors := rs\<rparr>))"

text \<open>
  \<open>redis.RedisClient.SetNX(ctx, key, "locked", seconds)\<close>: sets the key if it is absent;
  \<open>Val()\<close> tells whether it was set and is \<open>false\<close> on an error.
\<close>

definition RedisLockProvider_Lock ::
  "string \<Rightarrow> int \<Rightarrow> 'a world_scheme \<Rightarrow> (bool \<times> error option) \<times> 'a world_scheme" where
  "RedisLockProvider_Lock key seconds w =
     (case redis_call w of
        (Some err, w1) \<Rightarrow> ((False, Some err), w1)
      | (None, w1) \<Rightarrow>
          (case redis_keys w1 key of
             Some v \<Rightarrow> ((False, None), w1)
           | None \<Rightarrow> ((True, None), w1\<lparr>redis_keys := (redis_keys w1)(key \<mapsto> (''locked'', seconds))\<rparr>)))"

text \<open>\<open>redis.RedisClient.Del(ctx, key).Err()\<close>.\<close>

definition RedisLockProvider_Unlock :: "string \<Rightarrow> 'a world_scheme \<Rightarrow> error option \<times> 'a world_scheme" where
  "RedisLockProvider_Unlock key w =
     (case redis_call w of
        (Some err, w1) \<Rightarrow> (Some err, w1)
      | (None, w1) \<Rightarrow> (None, w1\<lparr>redis_keys := (redis_keys w1)(key := None)\<rparr>))"

definition RedisLockProvider :: "'a world_scheme LockProvider" where
  "RedisLockProvider = \<lparr>Lock = RedisLockProvider_Lock, Unlock = RedisLockProvider_Unlock\<rparr>"

text \<open>
  The manager that \<open>init\<close> builds (default storage, Redis lock), after the registrations
  \<open>items\<close> have been added to it.
\<close>

definition defaultManager :: "'a world_scheme MigrationItem list \<Rightarrow> 'a world_scheme MigrationManager" where
  "defaultManager items =
     (NewMigrationManager DefaultDatabaseMigrationStorage RedisLockProvider)\<lparr>migrations := items\<rparr>"

text \<open>\<open>AddMigrateWithNamespace\<close> and \<open>AddMigrate\<close> on a manager.\<close>

definition AddMigrateWithNamespace ::
  "'w MigrationManager \<Rightarrow> string \<Rightarrow> string \<Rightarrow> 'w MigrationFunc \<Rightarrow> 'w MigrationManager" where
  "AddMigrateWithNamespace m namespace name fn = Register m namespace name fn"

definition AddMigrate :: "'w MigrationManager \<Rightarrow> string \<Rightarrow> 'w MigrationFunc \<Rightarrow> 'w MigrationManager" where
  "AddMigrate m name fn = AddMigrateWithNamespace m ''app'' name fn"

section \<open>Texts and errors of the execution loop\<close>

text \<open>
  Names for the strings \<open>RunMigrations\<close> builds: the start line it logs into the
  context, the text it hands to \<open>MarkMigrationFailed\<close> (the function's error, then the
  joined lines of the context), and the error it returns after a failed function.
\<close>

definition startMarker :: "string \<Rightarrow> string \<Rightarrow> string \<Rightarrow> string" where
  "startMarker namespace name t = ''Starting migration: '' @ namespace @ '':'' @ name @ '' at '' @ t"

definition failureText :: "error \<Rightarrow> string list \<Rightarrow> string" where
  "failureText err ls = ''Migration failed: '' @ Error err @ ''\<newline>Logs:\<newline>'' @ Join ls ''\<newline>''"

definition failureError :: "string \<Rightarrow> string \<Rightarrow> error \<Rightarrow> error" where
  "failureError namespace name err = Errorf_w (''migration '' @ namespace @ '':'' @ name @ '' failed: '') err"

section \<open>Keys and rows\<close>

text \<open>
  The composite key of a registration and of a row of the log table; the columns of a row
  that a storage call chooses (namespace, name, logs, success); the rows a call of the
  run has written to the default storage, read off its record: a \<open>Mark...\<close> call that
  returned no error wrote one row, under the namespace the table stores for it. \<open>keeps_log_table\<close> says that a migration function leaves the log table as it
  found it, whatever else it does to the world.
\<close>

definition itemKey :: "'w MigrationItem \<Rightarrow> string" where
  "itemKey item = Sprintf_key (ItemNamespace item) (ItemName item)"

definition logKey :: "MigrationLog \<Rightarrow> string" where
  "logKey log = Sprintf_key (Namespace log) (Migration log)"

definition row_data :: "MigrationLog \<Rightarrow> string \<times> string \<times> string \<times> bool" where
  "row_data log = (Namespace log, Migration log, Logs log, Success log)"

fun written_row :: "event \<Rightarrow> (string \<times> string \<times> string \<times> bool) option" where
  "written_row (Ev_MarkMigrationSkipped ns n None) = Some (stored_namespace ns, n, ''skip'', True)"
| "written_row (Ev_MarkMigrationApplied ns n None) = Some (stored_namespace ns, n, [], True)"
| "written_row (Ev_MarkMigrationFailed ns n msg None) = Some (stored_namespace ns, n, msg, False)"
| "written_row ev = None"

definition written :: "event list \<Rightarrow> (string \<times> string \<times> string \<times> bool) list" where
  "written tr = List.map_filter written_row tr"

definition keeps_log_table :: "'a world_scheme MigrationFunc \<Rightarrow> bool" where
  "keeps_log_table fn \<longleftrightarrow> (\<forall>ctx w. migration_logs (snd (fn ctx w)) = migration_logs w)"

section \<open>Replaying the recorded calls\<close>

text \<open>
  The record of calls is tied to the interfaces by replaying it: \<open>replay_event\<close> makes the
  recorded call on the manager's own lock provider, storage or migration function in a
  given world and answers the world the call leaves, provided the call returns what the
  record says (a migration function is handed the context that holds the start line for
  the time of that world). \<open>replay\<close> does so for a list of calls, each in the world the
  one before left. So \<open>replay now m tr w = Some w'\<close> says that making exactly the calls of
  \<open>tr\<close>, in this order and starting in \<open>w\<close>, returns the recorded results and ends in \<open>w'\<close>.
\<close>

fun replay_event :: "('w \<Rightarrow> string) \<Rightarrow> 'w MigrationManager \<Rightarrow> event \<Rightarrow> 'w \<Rightarrow> 'w option" where
  "replay_event now m (Ev_Lock k secs locked err) w =
     (case Lock (lockProvider m) k secs w of
        (r, w1) \<Rightarrow> if r = (locked, err) then Some w1 else None)"
| "replay_event now m (Ev_Unlock k res) w =
     (case Unlock (lockProvider m) k w of
        (r, w1) \<Rightarrow> if r = res then Some w1 else None)"
| "replay_event now m (Ev_GetAppliedMigrations res) w =
     (case GetAppliedMigrations (storage m) w of
        (r, w1) \<Rightarrow> if r = res then Some w1 else None)"
| "replay_event now m (Ev_MarkMigrationSkipped ns n res) w =
     (case MarkMigrationSkipped (storage m) ns n w of
        (r, w1) \<Rightarrow> if r = res then Some w1 else None)"
| "replay_event now m (Ev_MarkMigrationApplied ns n res) w =
     (case MarkMigrationApplied (storage m) ns n w of
        (r, w1) \<Rightarrow> if r = res then Some w1 else None)"
| "replay_event now m (Ev_MarkMigrationFailed ns n msg res) w =
     (case MarkMigrationFailed (storage m) ns n msg w of
        (r, w1) \<Rightarrow> if r = res then Some w1 else None)"
| "replay_event now m (Ev_Func i ls res) w =
     (if i < length (migrations m)
      then
        (case Func (migrations m ! i)
                \<lparr>logStrings = [startMarker (ItemNamespace (migrations m ! i))
                                 (ItemName (migrations m ! i)) (now w)]\<rparr> w of
           (r, w1) \<Rightarrow> if r = (ls, res) then Some w1 else None)
      else None)"

fun replay :: "('w \<Rightarrow> string) \<Rightarrow> 'w MigrationManager \<Rightarrow> event list \<Rightarrow> 'w \<Rightarrow> 'w option" where
  "replay now m [] w = Some w"
| "replay now m (ev # evs) w =
     (case replay_event now m ev w of
        None \<Rightarrow> None
      | Some w1 \<Rightarrow> replay now m evs w1)"

section \<open>Sample data\<close>

text \<open>A clock reading, two migration functions, items, rows and worlds for the examples.\<close>

definition ex_now :: "world \<Rightarrow> string" where
  "ex_now w = ''T0''"

definition ex_ok :: "world MigrationFunc" where
  "ex_ok ctx w = (([], None), w)"

definition ex_fail :: "world MigrationFunc" where
  "ex_fail ctx w = (([''step 1''], Some (ErrorString ''boom'')), w)"

definition ex_item :: "string \<Rightarrow> string \<Rightarrow> world MigrationFunc \<Rightarrow> world MigrationItem" where
  "ex_item namespace name fn = \<lparr>ItemNamespace = namespace, ItemName = name, Func = fn\<rparr>"

definition ex_row :: "string \<Rightarrow> string \<Rightarrow> bool \<Rightarrow> MigrationLog" where
  "ex_row namespace name ok =
     \<lparr>ID = 1, Migration = name, Namespace = namespace, AppliedAt = 0, Logs = [], Success = ok\<rparr>"

definition ex_world :: "MigrationLog list \<Rightarrow> world" where
  "ex_world rows =
     \<lparr>migration_logs = rows, db_errors = [], redis_keys = Map.empty, redis_errors = [], clock = 0\<rparr>"

text \<open>The same world while another process holds the lock.\<close>

definition ex_world_locked :: "MigrationLog list \<Rightarrow> world" where
  "ex_world_locked rows = (ex_world rows)\<lparr>redis_keys := [''migrate_lock'' \<mapsto> (''locked'', 60)]\<rparr>"

text \<open>A world whose database fails at its fourth call.\<close>

definition ex_world_db_down :: "MigrationLog list \<Rightarrow> world" where
  "ex_world_db_down rows = (ex_world rows)\<lparr>db_errors := [None, None, None, Some (ErrorString ''db down'')]\<rparr>"

section \<open>Unfolding the model\<close>

lemmas run_defs =
  RunMigrations_def run_locked_def defaultManager_def NewMigrationManager_def
  DefaultDatabaseMigrationStorage_def RedisLockProvider_def RedisLockProvider_Lock_def
  RedisLockProvider_Unlock_def redis_call_def db_call_def db_AutoMigrate_def db_Find_success_def
  db_Create_def stored_namespace_def DefaultDatabaseMigrationStorage_GetAppliedMigrations_def
  DefaultDatabaseMigrationStorage_MarkMigrationApplied_def
  DefaultDatabaseMigrationStorage_MarkMigrationFailed_def
  DefaultDatabaseMigrationStorage_MarkMigrationSkipped_def lockKey_def lockTimeout_def
  map_index_def Sprintf_key_def Log_def LogString_def Errorf_w_def Let_def

lemmas ex_defs =
  ex_now_def ex_ok_def ex_fail_def ex_item_def ex_row_def ex_world_def ex_world_locked_def
  ex_world_db_down_def

lemmas text_defs = startMarker_def failureText_def failureError_def

section \<open>The shape of one step of each loop\<close>

lemma foldl_Log: "logStrings (foldl Log m ls) = logStrings m @ ls"
  by (induction ls arbitrary: m) (simp_all add: Log_def)

lemma execution_pass_cases [consumes 1, case_names skip fail mark_error applied]:
  assumes "execution_pass st now appliedSet i (item # rest) w = (res, w', evs)"
  obtains
    (skip) "map_index appliedSet (Sprintf_key (ItemNamespace item) (ItemName item))"
      "execution_pass st now appliedSet (Suc i) rest w = (res, w', evs)"
  | (fail) ls err w1 r where
      "\<not> map_index appliedSet (Sprintf_key (ItemNamespace item) (ItemName item))"
      "Func item \<lparr>logStrings = [startMarker (ItemNamespace item) (ItemName item) (now w)]\<rparr> w = ((ls, Some err), w1)"
      "MarkMigrationFailed st (ItemNamespace item) (ItemName item)
         (failureText err (startMarker (ItemNamespace item) (ItemName item) (now w) # ls)) w1 = (r, w')"
      "res = Some (failureError (ItemNamespace item) (ItemName item) err)"
      "evs = [Ev_Func i ls (Some err),
              Ev_MarkMigrationFailed (ItemNamespace item) (ItemName item)
                (failureText err (startMarker (ItemNamespace item) (ItemName item) (now w) # ls)) r]"
  | (mark_error) ls w1 err where
      "\<not> map_index appliedSet (Sprintf_key (ItemNamespace item) (ItemName item))"
      "Func item \<lparr>logStrings = [startMarker (ItemNamespace item) (ItemName item) (now w)]\<rparr> w = ((ls, None), w1)"
      "MarkMigrationApplied st (ItemNamespace item) (ItemName item) w1 = (Some err, w')"
      "res = Some (Errorf_w (''failed to mark migration '' @ ItemNamespace item @ '':'' @ ItemName item @ '' as applied: '') err)"
      "evs = [Ev_Func i ls None, Ev_MarkMigrationApplied (ItemNamespace item) (ItemName item) (Some err)]"
  | (applied) ls w1 w2 evs' where
      "\<not> map_index appliedSet (Sprintf_key (ItemNamespace item) (ItemName item))"
      "Func item \<lparr>logStrings = [startMarker (ItemNamespace item) (ItemName item) (now w)]\<rparr> w = ((ls, None), w1)"
      "MarkMigrationApplied st (ItemNamespace item) (ItemName item) w1 = (None, w2)"
      "execution_pass st now appliedSet (Suc i) rest w2 = (res, w', evs')"
      "evs = Ev_Func i ls None # Ev_MarkMigrationApplied (ItemNamespace item) (ItemName item) None # evs'"
  using assms
  by (auto simp: Let_def Log_def startMarker_def failureText_def failureError_def LogString_def foldl_Log
           split: if_splits prod.splits option.splits)

lemma bootstrap_pass_cases [consumes 1, case_names keep skip_error skipped]:
  assumes "bootstrap_pass st (item # rest) appliedSet nsHas w = (res, appliedSet', nsHas', w', evs)"
  obtains
    (keep) "map_index nsHas (ItemNamespace item) \<or> map_index appliedSet (Sprintf_key (ItemNamespace item) (ItemName item))"
      "bootstrap_pass st rest appliedSet nsHas w = (res, appliedSet', nsHas', w', evs)"
  | (skip_error) err where
      "\<not> map_index nsHas (ItemNamespace item)"
      "\<not> map_index appliedSet (Sprintf_key (ItemNamespace item) (ItemName item))"
      "MarkMigrationSkipped st (ItemNamespace item) (ItemName item) w = (Some err, w')"
      "res = Some (Errorf_w (''failed to mark migration '' @ Sprintf_key (ItemNamespace item) (ItemName item) @ '' as skipped: '') err)"
      "appliedSet' = appliedSet" "nsHas' = nsHas"
      "evs = [Ev_MarkMigrationSkipped (ItemNamespace item) (ItemName item) (Some err)]"
  | (skipped) w1 evs' where
      "\<not> map_index nsHas (ItemNamespace item)"
      "\<not> map_index appliedSet (Sprintf_key (ItemNamespace item) (ItemName item))"
      "MarkMigrationSkipped st (ItemNamespace item) (ItemName item) w = (None, w1)"
      "bootstrap_pass st rest (appliedSet(Sprintf_key (ItemNamespace item) (ItemName item) \<mapsto> True))
         (nsHas(ItemNamespace item \<mapsto> True)) w1 = (res, appliedSet', nsHas', w', evs')"
      "evs = Ev_MarkMigrationSkipped (ItemNamespace item) (ItemName item) None # evs'"
  using assms
  by (auto simp: Let_def split: if_splits prod.splits option.splits)

lemma bootstrap_pass_no_unlock:
  "bootstrap_pass st items appliedSet nsHas w = (res, appliedSet', nsHas', w', evs) \<Longrightarrow> filter is_unlock evs = []"
proof (induction items arbitrary: appliedSet nsHas w evs)
  case Nil
  then show ?case by simp
next
  case (Cons item rest)
  from Cons.prems show ?case
    by (cases rule: bootstrap_pass_cases) (auto dest: Cons.IH)
qed

lemma execution_pass_no_unlock:
  "execution_pass st now appliedSet i items w = (res, w', evs) \<Longrightarrow> filter is_unlock evs = []"
proof (induction items arbitrary: i w evs)
  case Nil
  then show ?case by simp
next
  case (Cons item rest)
  from Cons.prems show ?case
    by (cases rule: execution_pass_cases) (auto dest: Cons.IH)
qed

lemma run_locked_no_unlock:
  assumes "run_locked now m w = (res, w', evs)"
  shows "filter is_unlock evs = []"
  using assms
  by (auto simp: run_locked_def Let_def split: prod.splits sum.splits option.splits
           dest: bootstrap_pass_no_unlock execution_pass_no_unlock)

lemma invocations_Nil [simp]: "invocations [] = []"
  by (simp add: invocations_def List.map_filter_simps)

lemma invocations_Cons [simp]:
  "invocations (ev # evs) = (case invoked_index ev of None \<Rightarrow> invocations evs | Some i \<Rightarrow> i # invocations evs)"
  by (simp add: invocations_def List.map_filter_simps split: option.splits)

lemma invocations_append [simp]: "invocations (xs @ ys) = invocations xs @ invocations ys"
  by (induction xs) (simp_all split: option.splits)

lemma RunMigrations_cases [consumes 1, case_names lock_error contention load_error skip_error executed]:
  assumes "RunMigrations now m w = (res, w', tr)"
  obtains
    (lock_error) locked err where
      "Lock (lockProvider m) lockKey lockTimeout w = ((locked, Some err), w')"
      "res = Some (Errorf_w ''failed to acquire migration lock: '' err)"
      "tr = [Ev_Lock lockKey lockTimeout locked (Some err)]"
  | (contention)
      "Lock (lockProvider m) lockKey lockTimeout w = ((False, None), w')"
      "res = Some (ErrorString ''migration is already running'')"
      "tr = [Ev_Lock lockKey lockTimeout False None]"
  | (load_error) w1 err w2 ur where
      "Lock (lockProvider m) lockKey lockTimeout w = ((True, None), w1)"
      "GetAppliedMigrations (storage m) w1 = (Inl err, w2)"
      "Unlock (lockProvider m) lockKey w2 = (ur, w')"
      "res = Some (Errorf_w ''failed to get applied migrations: '' err)"
      "tr = [Ev_Lock lockKey lockTimeout True None, Ev_GetAppliedMigrations (Inl err), Ev_Unlock lockKey ur]"
  | (skip_error) w1 applied w2 err appliedSet' nsHas' w3 evs1 ur where
      "Lock (lockProvider m) lockKey lockTimeout w = ((True, None), w1)"
      "GetAppliedMigrations (storage m) w1 = (Inr applied, w2)"
      "bootstrap_pass (storage m) (migrations m) (build_appliedSet applied Map.empty)
         (build_namespaceHasRecords applied Map.empty) w2 = (Some err, appliedSet', nsHas', w3, evs1)"
      "Unlock (lockProvider m) lockKey w3 = (ur, w')"
      "res = Some err"
      "tr = Ev_Lock lockKey lockTimeout True None # Ev_GetAppliedMigrations (Inr applied) # evs1 @ [Ev_Unlock lockKey ur]"
  | (executed) w1 applied w2 appliedSet' nsHas' w3 evs1 w4 evs2 ur where
      "Lock (lockProvider m) lockKey lockTimeout w = ((True, None), w1)"
      "GetAppliedMigrations (storage m) w1 = (Inr applied, w2)"
      "bootstrap_pass (storage m) (migrations m) (build_appliedSet applied Map.empty)
         (build_namespaceHasRecords applied Map.empty) w2 = (None, appliedSet', nsHas', w3, evs1)"
      "execution_pass (storage m) now appliedSet' 0 (migrations m) w3 = (res, w4, evs2)"
      "Unlock (lockProvider m) lockKey w4 = (ur, w')"
      "tr = Ev_Lock lockKey lockTimeout True None # Ev_GetAppliedMigrations (Inr applied) # evs1 @ evs2 @ [Ev_Unlock lockKey ur]"
  using assms
  by (auto simp: RunMigrations_def run_locked_def Let_def
           split: prod.splits sum.splits option.splits if_splits)

lemma bootstrap_pass_events:
  "bootstrap_pass st items appliedSet nsHas w = (res, appliedSet', nsHas', w', evs) \<Longrightarrow>
   ev \<in> set evs \<Longrightarrow> \<exists>ns n r. ev = Ev_MarkMigrationSkipped ns n r"
proof (induction items arbitrary: appliedSet nsHas w evs)
  case Nil
  then show ?case by simp
next
  case (Cons item rest)
  from Cons.prems(1) show ?case
  proof (cases rule: bootstrap_pass_cases)
    case keep
    then show ?thesis using Cons.IH Cons.prems(2) by blast
  next
    case (skip_error err)
    then show ?thesis using Cons.prems(2) by auto
  next
    case (skipped w1 evs')
    then show ?thesis using Cons.IH Cons.prems(2) by auto
  qed
qed

lemma bootstrap_pass_invocations:
  assumes "bootstrap_pass st items appliedSet nsHas w = (res, appliedSet', nsHas', w', evs)"
  shows "invocations evs = []"
proof -
  have "\<forall>ev \<in> set evs. invoked_index ev = None"
    using bootstrap_pass_events [OF assms] by fastforce
  then show ?thesis
    by (induction evs) simp_all
qed

lemma bootstrap_pass_appliedSet_mono:
  "bootstrap_pass st items appliedSet nsHas w = (res, appliedSet', nsHas', w', evs) \<Longrightarrow>
   map_index appliedSet k \<Longrightarrow> map_index appliedSet' k"
proof (induction items arbitrary: appliedSet nsHas w evs)
  case Nil
  then show ?case by simp
next
  case (Cons item rest)
  from Cons.prems(1) show ?case
  proof (cases rule: bootstrap_pass_cases)
    case keep
    then show ?thesis using Cons.IH Cons.prems(2) by blast
  next
    case (skip_error err)
    then show ?thesis using Cons.prems(2) by simp
  next
    case (skipped w1 evs')
    have "map_index (appliedSet(Sprintf_key (ItemNamespace item) (ItemName item) \<mapsto> True)) k"
      using Cons.prems(2) by (simp add: map_index_def)
    then show ?thesis using Cons.IH skipped(4) by blast
  qed
qed

lemma map_index_build_appliedSet:
  "map_index (build_appliedSet ks m) k \<longleftrightarrow> k \<in> set ks \<or> map_index m k"
  by (induction ks arbitrary: m) (auto simp: map_index_def)

lemma execution_pass_invoked:
  "execution_pass st now appliedSet i0 items w = (res, w', evs) \<Longrightarrow>
   j \<in> set (invocations evs) \<Longrightarrow>
   i0 \<le> j \<and> j - i0 < length items
   \<and> \<not> map_index appliedSet (Sprintf_key (ItemNamespace (items ! (j - i0))) (ItemName (items ! (j - i0))))"
proof (induction items arbitrary: i0 w evs)
  case Nil
  then show ?case by simp
next
  case (Cons item rest)
  from Cons.prems(1) show ?case
  proof (cases rule: execution_pass_cases)
    case skip
    from Cons.IH [OF skip(2) Cons.prems(2)]
    show ?thesis by (auto simp: Suc_diff_le)
  next
    case (fail ls err w1 r)
    with Cons.prems(2) show ?thesis by simp
  next
    case (mark_error ls w1 err)
    with Cons.prems(2) show ?thesis by simp
  next
    case (applied ls w1 w2 evs')
    show ?thesis
    proof (cases "j = i0")
      case True
      with applied(1) show ?thesis by simp
    next
      case False
      with applied(5) Cons.prems(2) have "j \<in> set (invocations evs')" by simp
      from Cons.IH [OF applied(4) this]
      show ?thesis by (auto simp: Suc_diff_le)
    qed
  qed
qed

lemma execution_pass_failure:
  "execution_pass st now appliedSet i0 items w = (res, w', evs) \<Longrightarrow>
   Ev_Func i ls (Some err) \<in> set evs \<Longrightarrow>
   i0 \<le> i \<and> i - i0 < length items
   \<and> res = Some (failureError (ItemNamespace (items ! (i - i0))) (ItemName (items ! (i - i0))) err)
   \<and> (\<exists>pre t r.
         evs = pre @ [Ev_Func i ls (Some err),
                      Ev_MarkMigrationFailed (ItemNamespace (items ! (i - i0))) (ItemName (items ! (i - i0)))
                        (failureText err
                           (startMarker (ItemNamespace (items ! (i - i0))) (ItemName (items ! (i - i0))) t # ls)) r]
         \<and> (\<forall>j \<in> set (invocations pre). j < i))"
proof (induction items arbitrary: i0 w evs)
  case Nil
  then show ?case by simp
next
  case (Cons item rest)
  from Cons.prems(1) show ?case
  proof (cases rule: execution_pass_cases)
    case skip
    from Cons.IH [OF skip(2) Cons.prems(2)]
    show ?thesis by (auto simp: Suc_diff_le)
  next
    case (fail ls' err' w1 r)
    with Cons.prems(2) have "i = i0" "ls' = ls" "err' = err" by auto
    with fail show ?thesis by auto
  next
    case (mark_error ls' w1 err')
    with Cons.prems(2) show ?thesis by auto
  next
    case (applied ls' w1 w2 evs')
    with Cons.prems(2) have mem: "Ev_Func i ls (Some err) \<in> set evs'" by auto
    from Cons.IH [OF applied(4) mem]
    obtain pre t r where
      le: "Suc i0 \<le> i" "i - Suc i0 < length rest"
      and res: "res = Some (failureError (ItemNamespace (rest ! (i - Suc i0))) (ItemName (rest ! (i - Suc i0))) err)"
      and evs': "evs' = pre @ [Ev_Func i ls (Some err),
                      Ev_MarkMigrationFailed (ItemNamespace (rest ! (i - Suc i0))) (ItemName (rest ! (i - Suc i0)))
                        (failureText err
                           (startMarker (ItemNamespace (rest ! (i - Suc i0))) (ItemName (rest ! (i - Suc i0))) t # ls)) r]"
      and before: "\<forall>j \<in> set (invocations pre). j < i"
      by blast
    from le have idx: "(item # rest) ! (i - i0) = rest ! (i - Suc i0)"
      by (simp add: Suc_diff_le)
    let ?pre = "Ev_Func i0 ls' None # Ev_MarkMigrationApplied (ItemNamespace item) (ItemName item) None # pre"
    have "evs = ?pre @ [Ev_Func i ls (Some err),
                      Ev_MarkMigrationFailed (ItemNamespace (rest ! (i - Suc i0))) (ItemName (rest ! (i - Suc i0)))
                        (failureText err
                           (startMarker (ItemNamespace (rest ! (i - Suc i0))) (ItemName (rest ! (i - Suc i0))) t # ls)) r]"
      using applied(5) evs' by simp
    moreover have "\<forall>j \<in> set (invocations ?pre). j < i"
      using before le by auto
    ultimately show ?thesis
      using le res idx by (intro conjI exI [of _ ?pre] exI [of _ t] exI [of _ r]) simp_all
  qed
qed

lemma execution_pass_markFailed:
  "execution_pass st now appliedSet i0 items w = (res, w', evs) \<Longrightarrow>
   Ev_MarkMigrationFailed ns name msg r \<in> set evs \<Longrightarrow>
   \<exists>i ls err. Ev_Func i ls (Some err) \<in> set evs \<and> res = Some (failureError ns name err)"
proof (induction items arbitrary: i0 w evs)
  case Nil
  then show ?case by simp
next
  case (Cons item rest)
  from Cons.prems(1) show ?case
  proof (cases rule: execution_pass_cases)
    case skip
    from Cons.IH [OF skip(2) Cons.prems(2)] show ?thesis .
  next
    case (fail ls err w1 r')
    with Cons.prems(2) show ?thesis by auto
  next
    case (mark_error ls w1 err)
    with Cons.prems(2) show ?thesis by auto
  next
    case (applied ls w1 w2 evs')
    with Cons.prems(2) have "Ev_MarkMigrationFailed ns name msg r \<in> set evs'" by auto
    from Cons.IH [OF applied(4) this] applied(5) show ?thesis by auto
  qed
qed

lemma DefaultDatabaseMigrationStorage_MarkMigrationFailed_error:
  "DefaultDatabaseMigrationStorage_MarkMigrationFailed ns name msg w = (Some e, w1) \<Longrightarrow>
   migration_logs w1 = migration_logs w"
  by (auto simp: DefaultDatabaseMigrationStorage_MarkMigrationFailed_def db_AutoMigrate_def db_Create_def
        db_call_def split: list.splits option.splits prod.splits)

section \<open>Splitting a composite key\<close>

lemma Split_not_Nil: "Split s c \<noteq> []"
  by (induction s) simp_all

lemma Split_no_sep: "c \<notin> set s \<Longrightarrow> Split s c = [s]"
  by (induction s) auto

lemma Split_first_sep: "c \<notin> set a \<Longrightarrow> Split (a @ c # b) c = a # Split b c"
  by (induction a) auto

lemma length_Split: "length (Split s c) = Suc (length (filter (\<lambda>x. x = c) s))"
proof (induction s)
  case Nil
  then show ?case by simp
next
  case (Cons x s)
  have "length (tl (Split s c)) = length (Split s c) - 1" by simp
  with Cons Split_not_Nil [of s c] show ?case by simp
qed

lemma Split_two_parts:
  assumes "length (Split s c) = 2"
  shows "\<exists>a b. s = a @ c # b \<and> c \<notin> set a \<and> c \<notin> set b \<and> Split s c = [a, b]"
proof -
  from assms have one: "length (filter (\<lambda>x. x = c) s) = 1"
    by (simp add: length_Split)
  have "c \<in> set s"
  proof (rule ccontr)
    assume "c \<notin> set s"
    then have "filter (\<lambda>x. x = c) s = []"
      by (auto simp: filter_empty_conv)
    with one show False by simp
  qed
  then obtain a b where s: "s = a @ c # b" and a: "c \<notin> set a"
    using split_list_first [of c s] by blast
  from a have fa: "filter (\<lambda>x. x = c) a = []"
    by (auto simp: filter_empty_conv)
  have "length (filter (\<lambda>x. x = c) (a @ c # b)) = 1"
    using one s by simp
  with fa have "filter (\<lambda>x. x = c) b = []"
    by simp
  then have b: "c \<notin> set b"
    by (auto simp: filter_empty_conv)
  have "Split (a @ c # b) c = [a, b]"
    using a b by (simp add: Split_first_sep Split_no_sep)
  with a b s show ?thesis by blast
qed

lemma Sprintf_key_eq:
  assumes "CHR '':'' \<notin> set a" and "CHR '':'' \<notin> set b"
  shows "(\<exists>name. Sprintf_key ns name = a @ CHR '':'' # b \<and> CHR '':'' \<notin> set ns \<and> CHR '':'' \<notin> set name)
         \<longleftrightarrow> ns = a"
proof
  assume "\<exists>name. Sprintf_key ns name = a @ CHR '':'' # b \<and> CHR '':'' \<notin> set ns \<and> CHR '':'' \<notin> set name"
  then obtain name where eq: "ns @ CHR '':'' # name = a @ CHR '':'' # b" and ns: "CHR '':'' \<notin> set ns"
    by (auto simp: Sprintf_key_def)
  from eq [symmetric] show "ns = a"
    by (simp add: append_Cons_eq_iff [OF assms])
next
  assume "ns = a"
  then have "Sprintf_key ns b = a @ CHR '':'' # b"
    by (simp add: Sprintf_key_def)
  with assms \<open>ns = a\<close>
  show "\<exists>name. Sprintf_key ns name = a @ CHR '':'' # b \<and> CHR '':'' \<notin> set ns \<and> CHR '':'' \<notin> set name"
    by blast
qed

lemma Split_Sprintf_key:
  "CHR '':'' \<notin> set ns \<Longrightarrow> CHR '':'' \<notin> set name \<Longrightarrow>
   Split (Sprintf_key ns name) CHR '':'' = [ns, name]"
  by (simp add: Sprintf_key_def Split_first_sep Split_no_sep)

lemma map_index_upd: "map_index (m(a \<mapsto> True)) ns \<longleftrightarrow> map_index m ns \<or> ns = a"
  by (auto simp: map_index_def)

lemma map_index_build_namespaceHasRecords:
  "map_index (build_namespaceHasRecords ks m) ns \<longleftrightarrow>
     map_index m ns
     \<or> (\<exists>k \<in> set ks. \<exists>name. Sprintf_key ns name = k \<and> CHR '':'' \<notin> set ns \<and> CHR '':'' \<notin> set name)"
proof (induction ks arbitrary: m)
  case Nil
  then show ?case by simp
next
  case (Cons k ks)
  let ?H = "\<lambda>k. \<exists>name. Sprintf_key ns name = k \<and> CHR '':'' \<notin> set ns \<and> CHR '':'' \<notin> set name"
  have split: "(\<exists>k' \<in> set (k # ks). ?H k') \<longleftrightarrow> ?H k \<or> (\<exists>k' \<in> set ks. ?H k')"
    by simp
  show ?case
  proof (cases "length (Split k CHR '':'') = 2")
    case True
    from Split_two_parts [OF True] obtain a b where
      k: "k = a @ CHR '':'' # b" and a: "CHR '':'' \<notin> set a" and b: "CHR '':'' \<notin> set b"
      and sp: "Split k CHR '':'' = [a, b]"
      by blast
    have key: "?H k \<longleftrightarrow> ns = a"
      unfolding k by (rule Sprintf_key_eq [OF a b])
    have "map_index (build_namespaceHasRecords (k # ks) m) ns
           \<longleftrightarrow> map_index (build_namespaceHasRecords ks (m(a \<mapsto> True))) ns"
      using True sp by simp
    also have "\<dots> \<longleftrightarrow> map_index (m(a \<mapsto> True)) ns \<or> (\<exists>k' \<in> set ks. ?H k')"
      by (rule Cons.IH)
    also have "\<dots> \<longleftrightarrow> map_index m ns \<or> (ns = a \<or> (\<exists>k' \<in> set ks. ?H k'))"
      by (simp only: map_index_upd disj_assoc)
    also have "\<dots> \<longleftrightarrow> map_index m ns \<or> (\<exists>k' \<in> set (k # ks). ?H k')"
      by (simp only: split key)
    finally show ?thesis .
  next
    case False
    have no: "\<not> ?H k"
    proof
      assume "?H k"
      then obtain name where "k = Sprintf_key ns name" "CHR '':'' \<notin> set ns" "CHR '':'' \<notin> set name"
        by blast
      then have "Split k CHR '':'' = [ns, name]"
        by (simp add: Split_Sprintf_key)
      with False show False by simp
    qed
    have "map_index (build_namespaceHasRecords (k # ks) m) ns
           \<longleftrightarrow> map_index (build_namespaceHasRecords ks m) ns"
      using False by simp
    also have "\<dots> \<longleftrightarrow> map_index m ns \<or> (\<exists>k' \<in> set ks. ?H k')"
      by (rule Cons.IH)
    also have "\<dots> \<longleftrightarrow> map_index m ns \<or> (\<exists>k' \<in> set (k # ks). ?H k')"
      using no by (simp only: split simp_thms)
    finally show ?thesis .
  qed
qed

section \<open>The default backends and the log table\<close>

lemma storage_defaultManager [simp]:
  "storage (defaultManager items) = DefaultDatabaseMigrationStorage"
  "lockProvider (defaultManager items) = RedisLockProvider"
  "migrations (defaultManager items) = items"
  by (simp_all add: defaultManager_def NewMigrationManager_def)

lemma DefaultDatabaseMigrationStorage_sel [simp]:
  "GetAppliedMigrations DefaultDatabaseMigrationStorage = DefaultDatabaseMigrationStorage_GetAppliedMigrations"
  "MarkMigrationApplied DefaultDatabaseMigrationStorage = DefaultDatabaseMigrationStorage_MarkMigrationApplied"
  "MarkMigrationFailed DefaultDatabaseMigrationStorage = DefaultDatabaseMigrationStorage_MarkMigrationFailed"
  "MarkMigrationSkipped DefaultDatabaseMigrationStorage = DefaultDatabaseMigrationStorage_MarkMigrationSkipped"
  by (simp_all add: DefaultDatabaseMigrationStorage_def)

lemma RedisLockProvider_sel [simp]:
  "Lock RedisLockProvider = RedisLockProvider_Lock"
  "Unlock RedisLockProvider = RedisLockProvider_Unlock"
  by (simp_all add: RedisLockProvider_def)

lemma db_call_logs [simp]: "migration_logs (snd (db_call w)) = migration_logs w"
  by (simp add: db_call_def split: list.splits)

lemma redis_call_logs [simp]: "migration_logs (snd (redis_call w)) = migration_logs w"
  by (simp add: redis_call_def split: list.splits)

lemma RedisLockProvider_Lock_logs:
  "RedisLockProvider_Lock k secs w = (r, w') \<Longrightarrow> migration_logs w' = migration_logs w"
proof -
  have "migration_logs (snd (RedisLockProvider_Lock k secs w)) = migration_logs w"
    by (simp add: RedisLockProvider_Lock_def split_beta split: option.splits)
  then show "RedisLockProvider_Lock k secs w = (r, w') \<Longrightarrow> migration_logs w' = migration_logs w"
    by simp
qed

lemma RedisLockProvider_Unlock_logs:
  "RedisLockProvider_Unlock k w = (r, w') \<Longrightarrow> migration_logs w' = migration_logs w"
proof -
  have "migration_logs (snd (RedisLockProvider_Unlock k w)) = migration_logs w"
    by (simp add: RedisLockProvider_Unlock_def split_beta split: option.splits)
  then show "RedisLockProvider_Unlock k w = (r, w') \<Longrightarrow> migration_logs w' = migration_logs w"
    by simp
qed

lemma GetAppliedMigrations_logs:
  "DefaultDatabaseMigrationStorage_GetAppliedMigrations w = (r, w') \<Longrightarrow>
   migration_logs w' = migration_logs w"
proof -
  have "migration_logs (snd (DefaultDatabaseMigrationStorage_GetAppliedMigrations w)) = migration_logs w"
    by (simp add: DefaultDatabaseMigrationStorage_GetAppliedMigrations_def db_AutoMigrate_def
          db_Find_success_def split_beta split: option.splits)
  then show "DefaultDatabaseMigrationStorage_GetAppliedMigrations w = (r, w') \<Longrightarrow>
     migration_logs w' = migration_logs w"
    by simp
qed

lemma GetAppliedMigrations_keys:
  assumes "DefaultDatabaseMigrationStorage_GetAppliedMigrations w = (Inr ks, w')"
  shows "ks = map (\<lambda>log. Sprintf_key (Namespace log) (Migration log)) (filter Success (migration_logs w))"
proof -
  have "fst (DefaultDatabaseMigrationStorage_GetAppliedMigrations w) = Inr ks"
    using assms by simp
  then show ?thesis
    by (simp add: DefaultDatabaseMigrationStorage_GetAppliedMigrations_def db_AutoMigrate_def
          db_Find_success_def split_beta split: option.splits)
qed

lemma applied_key_not_invoked:
  assumes run: "RunMigrations now m w = (res, w', tr)"
    and loaded: "\<And>w1 ks w2. Lock (lockProvider m) lockKey lockTimeout w = ((True, None), w1) \<Longrightarrow>
                   GetAppliedMigrations (storage m) w1 = (Inr ks, w2) \<Longrightarrow>
                   Sprintf_key (ItemNamespace (migrations m ! i)) (ItemName (migrations m ! i)) \<in> set ks"
  shows "i \<notin> set (invocations tr)"
  using run
proof (cases rule: RunMigrations_cases)
  case (lock_error locked err)
  then show ?thesis by simp
next
  case contention
  then show ?thesis by simp
next
  case (load_error w1 err w2 ur)
  then show ?thesis by simp
next
  case (skip_error w1 applied w2 err appliedSet' nsHas' w3 evs1 ur)
  then show ?thesis using bootstrap_pass_invocations [OF skip_error(3)] by simp
next
  case (executed w1 applied w2 appliedSet' nsHas' w3 evs1 w4 evs2 ur)
  have inv: "invocations tr = invocations evs2"
    using executed(6) bootstrap_pass_invocations [OF executed(3)] by simp
  have "Sprintf_key (ItemNamespace (migrations m ! i)) (ItemName (migrations m ! i)) \<in> set applied"
    using loaded [OF executed(1,2)] .
  then have "map_index (build_appliedSet applied Map.empty)
               (Sprintf_key (ItemNamespace (migrations m ! i)) (ItemName (migrations m ! i)))"
    by (simp add: map_index_build_appliedSet)
  then have ap: "map_index appliedSet'
               (Sprintf_key (ItemNamespace (migrations m ! i)) (ItemName (migrations m ! i)))"
    using bootstrap_pass_appliedSet_mono [OF executed(3)] by blast
  show ?thesis
  proof
    assume "i \<in> set (invocations tr)"
    with inv have "i \<in> set (invocations evs2)" by simp
    from execution_pass_invoked [OF executed(4) this] ap show False by simp
  qed
qed

section \<open>The rows a run writes\<close>

lemma written_Nil [simp]: "written [] = []"
  by (simp add: written_def List.map_filter_simps)

lemma written_Cons [simp]:
  "written (ev # evs) = (case written_row ev of None \<Rightarrow> written evs | Some d \<Rightarrow> d # written evs)"
  by (simp add: written_def List.map_filter_simps split: option.splits)

lemma written_append [simp]: "written (xs @ ys) = written xs @ written ys"
  by (induction xs) (simp_all split: option.splits)

lemma db_Create_rows:
  "db_Create log w = (r, w') \<Longrightarrow>
   (r = None \<longrightarrow> (\<exists>row. migration_logs w' = migration_logs w @ [row]
        \<and> row_data row = (stored_namespace (Namespace log), Migration log, Logs log, Success log)))
   \<and> (r \<noteq> None \<longrightarrow> migration_logs w' = migration_logs w)"
proof -
  assume a: "db_Create log w = (r, w')"
  obtain r1 w1 where c: "db_call w = (r1, w1)" by (metis surj_pair)
  have l: "migration_logs w1 = migration_logs w"
    using db_call_logs [of w] c by simp
  show ?thesis
  proof (cases r1)
    case None
    with a c l show ?thesis by (auto simp: db_Create_def row_data_def)
  next
    case (Some e)
    with a c l show ?thesis by (auto simp: db_Create_def)
  qed
qed

lemma mark_rows:
  assumes "(case db_AutoMigrate w of
              (Some err, w1) \<Rightarrow> (Some err, w1)
            | (None, w1) \<Rightarrow> db_Create (mk w1) w1) = (r, w')"
    and "\<And>w1. (stored_namespace (Namespace (mk w1)), Migration (mk w1), Logs (mk w1), Success (mk w1)) = d"
  shows "\<exists>new. migration_logs w' = migration_logs w @ new
           \<and> map row_data new = (case r of None \<Rightarrow> [d] | Some e \<Rightarrow> [])"
proof -
  obtain r1 w1 where c: "db_call w = (r1, w1)" by (metis surj_pair)
  have l: "migration_logs w1 = migration_logs w"
    using db_call_logs [of w] c by simp
  show ?thesis
  proof (cases r1)
    case None
    with assms(1) c have cr: "db_Create (mk w1) w1 = (r, w')"
      by (simp add: db_AutoMigrate_def)
    from db_Create_rows [OF cr] l assms(2) show ?thesis
      by (cases r) auto
  next
    case (Some e)
    with assms(1) c l show ?thesis
      by (auto simp: db_AutoMigrate_def)
  qed
qed

lemma MarkMigrationSkipped_rows:
  assumes "DefaultDatabaseMigrationStorage_MarkMigrationSkipped ns n w = (r, w')"
  shows "\<exists>new. migration_logs w' = migration_logs w @ new
           \<and> map row_data new = written [Ev_MarkMigrationSkipped ns n r]"
proof -
  have "\<exists>new. migration_logs w' = migration_logs w @ new
           \<and> map row_data new = (case r of None \<Rightarrow> [(stored_namespace ns, n, ''skip'', True)] | Some e \<Rightarrow> [])"
    by (rule mark_rows [OF assms [unfolded DefaultDatabaseMigrationStorage_MarkMigrationSkipped_def]])
       simp
  then show ?thesis by (cases r) auto
qed

lemma MarkMigrationApplied_rows:
  assumes "DefaultDatabaseMigrationStorage_MarkMigrationApplied ns n w = (r, w')"
  shows "\<exists>new. migration_logs w' = migration_logs w @ new
           \<and> map row_data new = written [Ev_MarkMigrationApplied ns n r]"
proof -
  have "\<exists>new. migration_logs w' = migration_logs w @ new
           \<and> map row_data new = (case r of None \<Rightarrow> [(stored_namespace ns, n, [], True)] | Some e \<Rightarrow> [])"
    by (rule mark_rows [OF assms [unfolded DefaultDatabaseMigrationStorage_MarkMigrationApplied_def]])
       simp
  then show ?thesis by (cases r) auto
qed

lemma MarkMigrationFailed_rows:
  assumes "DefaultDatabaseMigrationStorage_MarkMigrationFailed ns n msg w = (r, w')"
  shows "\<exists>new. migration_logs w' = migration_logs w @ new
           \<and> map row_data new = written [Ev_MarkMigrationFailed ns n msg r]"
proof -
  have "\<exists>new. migration_logs w' = migration_logs w @ new
           \<and> map row_data new = (case r of None \<Rightarrow> [(stored_namespace ns, n, msg, False)] | Some e \<Rightarrow> [])"
    by (rule mark_rows [OF assms [unfolded DefaultDatabaseMigrationStorage_MarkMigrationFailed_def]])
       simp
  then show ?thesis by (cases r) auto
qed

lemma bootstrap_pass_rows:
  "bootstrap_pass DefaultDatabaseMigrationStorage items appliedSet nsHas w = (res, appliedSet', nsHas', w', evs) \<Longrightarrow>
   \<exists>new. migration_logs w' = migration_logs w @ new \<and> map row_data new = written evs"
proof (induction items arbitrary: appliedSet nsHas w evs)
  case Nil
  then show ?case by simp
next
  case (Cons item rest)
  from Cons.prems show ?case
  proof (cases rule: bootstrap_pass_cases)
    case keep
    then show ?thesis using Cons.IH by blast
  next
    case (skip_error err)
    from skip_error(3) have "DefaultDatabaseMigrationStorage_MarkMigrationSkipped (ItemNamespace item) (ItemName item) w = (Some err, w')"
      by simp
    from MarkMigrationSkipped_rows [OF this] skip_error(7) show ?thesis by simp
  next
    case (skipped w1 evs')
    from skipped(3) have "DefaultDatabaseMigrationStorage_MarkMigrationSkipped (ItemNamespace item) (ItemName item) w = (None, w1)"
      by simp
    from MarkMigrationSkipped_rows [OF this]
    obtain new1 where n1: "migration_logs w1 = migration_logs w @ new1"
      "map row_data new1 = written [Ev_MarkMigrationSkipped (ItemNamespace item) (ItemName item) None]"
      by blast
    from Cons.IH [OF skipped(4)]
    obtain new2 where n2: "migration_logs w' = migration_logs w1 @ new2" "map row_data new2 = written evs'"
      by blast
    have "migration_logs w' = migration_logs w @ (new1 @ new2)"
      using n1(1) n2(1) by simp
    moreover have "map row_data (new1 @ new2) = written evs"
      using n1(2) n2(2) skipped(5) by simp
    ultimately show ?thesis by blast
  qed
qed

lemma execution_pass_rows:
  "execution_pass DefaultDatabaseMigrationStorage now appliedSet i0 items w = (res, w', evs) \<Longrightarrow>
   \<forall>item \<in> set items. keeps_log_table (Func item) \<Longrightarrow>
   \<exists>new. migration_logs w' = migration_logs w @ new \<and> map row_data new = written evs"
proof (induction items arbitrary: i0 w evs)
  case Nil
  then show ?case by simp
next
  case (Cons item rest)
  have keep: "\<And>ctx w r w1. Func item ctx w = (r, w1) \<Longrightarrow> migration_logs w1 = migration_logs w"
    using Cons.prems(2) by (auto simp: keeps_log_table_def dest: spec [where x = "ctx"] ) (metis snd_conv)
  from Cons.prems(1) show ?case
  proof (cases rule: execution_pass_cases)
    case skip
    then show ?thesis using Cons.IH Cons.prems(2) by simp
  next
    case (fail ls err w1 r)
    from keep [OF fail(2)] have l1: "migration_logs w1 = migration_logs w" .
    from fail(3) MarkMigrationFailed_rows l1 fail(5) show ?thesis
      by fastforce
  next
    case (mark_error ls w1 err)
    from keep [OF mark_error(2)] have l1: "migration_logs w1 = migration_logs w" .
    from mark_error(3) MarkMigrationApplied_rows l1 mark_error(5) show ?thesis
      by fastforce
  next
    case (applied ls w1 w2 evs')
    from keep [OF applied(2)] have l1: "migration_logs w1 = migration_logs w" .
    from applied(3) have "DefaultDatabaseMigrationStorage_MarkMigrationApplied (ItemNamespace item) (ItemName item) w1 = (None, w2)"
      by simp
    from MarkMigrationApplied_rows [OF this] l1
    obtain new1 where n1: "migration_logs w2 = migration_logs w @ new1"
      "map row_data new1 = written [Ev_MarkMigrationApplied (ItemNamespace item) (ItemName item) None]"
      by auto
    from Cons.IH [OF applied(4)] Cons.prems(2)
    obtain new2 where n2: "migration_logs w' = migration_logs w2 @ new2" "map row_data new2 = written evs'"
      by auto
    have "migration_logs w' = migration_logs w @ (new1 @ new2)"
      using n1(1) n2(1) by simp
    moreover have "map row_data (new1 @ new2) = written evs"
      using n1(2) n2(2) applied(5) by simp
    ultimately show ?thesis by blast
  qed
qed

lemma RunMigrations_rows:
  assumes "RunMigrations now (defaultManager items) w = (res, w', tr)"
    and "\<forall>item \<in> set items. keeps_log_table (Func item)"
  shows "\<exists>new. migration_logs w' = migration_logs w @ new \<and> map row_data new = written tr"
  using assms(1)
proof (cases rule: RunMigrations_cases)
  case (lock_error locked err)
  then show ?thesis by (auto dest: RedisLockProvider_Lock_logs)
next
  case contention
  then show ?thesis by (auto dest: RedisLockProvider_Lock_logs)
next
  case (load_error w1 err w2 ur)
  then have "migration_logs w1 = migration_logs w" "migration_logs w2 = migration_logs w1"
    "migration_logs w' = migration_logs w2"
    by (auto dest: RedisLockProvider_Lock_logs RedisLockProvider_Unlock_logs GetAppliedMigrations_logs)
  with load_error(5) show ?thesis by simp
next
  case (skip_error w1 applied w2 err appliedSet' nsHas' w3 evs1 ur)
  then have l: "migration_logs w1 = migration_logs w" "migration_logs w2 = migration_logs w1"
    "migration_logs w' = migration_logs w3"
    by (auto dest: RedisLockProvider_Lock_logs RedisLockProvider_Unlock_logs GetAppliedMigrations_logs)
  from skip_error(3) have "bootstrap_pass DefaultDatabaseMigrationStorage items (build_appliedSet applied Map.empty)
         (build_namespaceHasRecords applied Map.empty) w2 = (Some err, appliedSet', nsHas', w3, evs1)"
    by simp
  from bootstrap_pass_rows [OF this] l skip_error(6) show ?thesis by auto
next
  case (executed w1 applied w2 appliedSet' nsHas' w3 evs1 w4 evs2 ur)
  then have l: "migration_logs w1 = migration_logs w" "migration_logs w2 = migration_logs w1"
    "migration_logs w' = migration_logs w4"
    by (auto dest: RedisLockProvider_Lock_logs RedisLockProvider_Unlock_logs GetAppliedMigrations_logs)
  from executed(3) have "bootstrap_pass DefaultDatabaseMigrationStorage items (build_appliedSet applied Map.empty)
         (build_namespaceHasRecords applied Map.empty) w2 = (None, appliedSet', nsHas', w3, evs1)"
    by simp
  from bootstrap_pass_rows [OF this]
  obtain new1 where n1: "migration_logs w3 = migration_logs w2 @ new1" "map row_data new1 = written evs1"
    by blast
  from executed(4) have "execution_pass DefaultDatabaseMigrationStorage now appliedSet' 0 items w3 = (res, w4, evs2)"
    by simp
  from execution_pass_rows [OF this assms(2)]
  obtain new2 where n2: "migration_logs w4 = migration_logs w3 @ new2" "map row_data new2 = written evs2"
    by blast
  have "migration_logs w' = migration_logs w @ (new1 @ new2)"
    using l n1(1) n2(1) by simp
  moreover have "map row_data (new1 @ new2) = written tr"
    using n1(2) n2(2) executed(6) by simp
  ultimately show ?thesis by blast
qed

lemma map_index_empty: "\<not> map_index Map.empty k"
  by (simp add: map_index_def)

lemma written_row_mem:
  "ev \<in> set tr \<Longrightarrow> written_row ev = Some d \<Longrightarrow> d \<in> set (written tr)"
  by (induction tr) (auto split: option.splits)

lemma written_no_write: "filter is_write tr = [] \<Longrightarrow> written tr = []"
proof (induction tr)
  case Nil
  then show ?case by simp
next
  case (Cons ev tr)
  then have "\<not> is_write ev" "filter is_write tr = []"
    by (auto split: if_splits)
  moreover from \<open>\<not> is_write ev\<close> have "written_row ev = None"
    by (cases ev) auto
  ultimately show ?case using Cons.IH by simp
qed

lemma bootstrap_pass_appliedSet_source:
  "bootstrap_pass st items appliedSet nsHas w = (res, appliedSet', nsHas', w', evs) \<Longrightarrow>
   map_index appliedSet' k \<Longrightarrow>
   map_index appliedSet k \<or> (\<exists>ns n. Ev_MarkMigrationSkipped ns n None \<in> set evs \<and> Sprintf_key ns n = k)"
proof (induction items arbitrary: appliedSet nsHas w evs)
  case Nil
  then show ?case by simp
next
  case (Cons item rest)
  from Cons.prems(1) show ?case
  proof (cases rule: bootstrap_pass_cases)
    case keep
    then show ?thesis using Cons.IH Cons.prems(2) by blast
  next
    case (skip_error err)
    then show ?thesis using Cons.prems(2) by simp
  next
    case (skipped w1 evs')
    from Cons.IH [OF skipped(4) Cons.prems(2)]
    have "map_index (appliedSet(Sprintf_key (ItemNamespace item) (ItemName item) \<mapsto> True)) k
          \<or> (\<exists>ns n. Ev_MarkMigrationSkipped ns n None \<in> set evs' \<and> Sprintf_key ns n = k)" .
    then show ?thesis
    proof
      assume "map_index (appliedSet(Sprintf_key (ItemNamespace item) (ItemName item) \<mapsto> True)) k"
      then have "map_index appliedSet k \<or> k = Sprintf_key (ItemNamespace item) (ItemName item)"
        by (simp add: map_index_upd)
      with skipped(5) show ?thesis by auto
    next
      assume "\<exists>ns n. Ev_MarkMigrationSkipped ns n None \<in> set evs' \<and> Sprintf_key ns n = k"
      with skipped(5) show ?thesis by auto
    qed
  qed
qed

lemma execution_pass_completed:
  "execution_pass st now appliedSet i0 items w = (None, w', evs) \<Longrightarrow>
   item \<in> set items \<Longrightarrow>
   map_index appliedSet (Sprintf_key (ItemNamespace item) (ItemName item))
   \<or> Ev_MarkMigrationApplied (ItemNamespace item) (ItemName item) None \<in> set evs"
proof (induction items arbitrary: i0 w evs)
  case Nil
  then show ?case by simp
next
  case (Cons it rest)
  from Cons.prems(1) show ?case
  proof (cases rule: execution_pass_cases)
    case skip
    show ?thesis
    proof (cases "item = it")
      case True
      with skip(1) show ?thesis by simp
    next
      case False
      with Cons.prems(2) have "item \<in> set rest" by simp
      from Cons.IH [OF skip(2) this] show ?thesis .
    qed
  next
    case (fail ls err w1 r)
    then show ?thesis by simp
  next
    case (mark_error ls w1 err)
    then show ?thesis by simp
  next
    case (applied ls w1 w2 evs')
    show ?thesis
    proof (cases "item = it")
      case True
      with applied(5) show ?thesis by simp
    next
      case False
      with Cons.prems(2) have "item \<in> set rest" by simp
      from Cons.IH [OF applied(4) this] applied(5) show ?thesis by auto
    qed
  qed
qed

lemma bootstrap_pass_all_applied:
  "\<forall>item \<in> set items. map_index appliedSet (Sprintf_key (ItemNamespace item) (ItemName item)) \<Longrightarrow>
   bootstrap_pass st items appliedSet nsHas w = (None, appliedSet, nsHas, w, [])"
  by (induction items) simp_all

lemma execution_pass_all_applied:
  "\<forall>item \<in> set items. map_index appliedSet (Sprintf_key (ItemNamespace item) (ItemName item)) \<Longrightarrow>
   execution_pass st now appliedSet i0 items w = (None, w, [])"
  by (induction items arbitrary: i0) simp_all

lemma stored_namespace_nonempty: "ns \<noteq> [] \<Longrightarrow> stored_namespace ns = ns"
  by (simp add: stored_namespace_def)

lemma bootstrap_pass_events_item:
  "bootstrap_pass st items appliedSet nsHas w = (res, appliedSet', nsHas', w', evs) \<Longrightarrow>
   Ev_MarkMigrationSkipped ns n r \<in> set evs \<Longrightarrow>
   \<exists>item \<in> set items. ns = ItemNamespace item \<and> n = ItemName item"
proof (induction items arbitrary: appliedSet nsHas w evs)
  case Nil
  then show ?case by simp
next
  case (Cons item rest)
  from Cons.prems(1) show ?case
  proof (cases rule: bootstrap_pass_cases)
    case keep
    from Cons.IH [OF keep(2) Cons.prems(2)] show ?thesis by auto
  next
    case (skip_error err)
    with Cons.prems(2) show ?thesis by simp
  next
    case (skipped w1 evs')
    show ?thesis
    proof (cases "Ev_MarkMigrationSkipped ns n r \<in> set evs'")
      case True
      from Cons.IH [OF skipped(4) True] show ?thesis by auto
    next
      case False
      with Cons.prems(2) skipped(5) show ?thesis by simp
    qed
  qed
qed

lemma completed_run_records_every_key:
  assumes run: "RunMigrations now (defaultManager items) w = (None, w1, tr)"
    and frame: "\<forall>item \<in> set items. keeps_log_table (Func item)"
    and named: "\<forall>item \<in> set items. ItemNamespace item \<noteq> []"
    and item: "item \<in> set items"
  shows "\<exists>row \<in> set (migration_logs w1). Success row
           \<and> Sprintf_key (Namespace row) (Migration row) = Sprintf_key (ItemNamespace item) (ItemName item)"
proof -
  let ?k = "Sprintf_key (ItemNamespace item) (ItemName item)"
  from RunMigrations_rows [OF run frame]
  obtain new where logs: "migration_logs w1 = migration_logs w @ new" and new: "map row_data new = written tr"
    by blast
  have wr: "\<exists>row \<in> set (migration_logs w1). Success row \<and> Sprintf_key (Namespace row) (Migration row) = Sprintf_key ns n"
    if "(ns, n, l, True) \<in> set (written tr)" for ns n l
  proof -
    from that new have "(ns, n, l, True) \<in> row_data ` set new"
      by (metis set_map)
    then obtain row where "row \<in> set new" "row_data row = (ns, n, l, True)" by auto
    then show ?thesis using logs by (auto simp: row_data_def)
  qed
  from run show ?thesis
  proof (cases rule: RunMigrations_cases)
    case (executed wa applied wb appliedSet' nsHas' wc evs1 wd evs2 ur)
    from executed(4) have ex: "execution_pass DefaultDatabaseMigrationStorage now appliedSet' 0 items wc = (None, wd, evs2)"
      by simp
    from execution_pass_completed [OF ex item]
    have "map_index appliedSet' ?k \<or> Ev_MarkMigrationApplied (ItemNamespace item) (ItemName item) None \<in> set evs2" .
    then show ?thesis
    proof
      assume "Ev_MarkMigrationApplied (ItemNamespace item) (ItemName item) None \<in> set evs2"
      then have "Ev_MarkMigrationApplied (ItemNamespace item) (ItemName item) None \<in> set tr"
        using executed(6) by simp
      from written_row_mem [OF this] have "(ItemNamespace item, ItemName item, [], True) \<in> set (written tr)"
        using named item by (simp add: stored_namespace_nonempty)
      from wr [OF this] show ?thesis .
    next
      assume "map_index appliedSet' ?k"
      from bootstrap_pass_appliedSet_source [OF executed(3) this]
      have "map_index (build_appliedSet applied Map.empty) ?k
            \<or> (\<exists>ns n. Ev_MarkMigrationSkipped ns n None \<in> set evs1 \<and> Sprintf_key ns n = ?k)" .
      then show ?thesis
      proof
        assume "map_index (build_appliedSet applied Map.empty) ?k"
        then have "?k \<in> set applied"
          by (simp add: map_index_build_appliedSet map_index_empty)
        moreover have "migration_logs wa = migration_logs w"
          using executed(1) by (simp add: RedisLockProvider_Lock_logs)
        moreover have "applied = map (\<lambda>log. Sprintf_key (Namespace log) (Migration log)) (filter Success (migration_logs wa))"
          using executed(2) GetAppliedMigrations_keys [of wa applied wb] by simp
        ultimately show ?thesis using logs by auto
      next
        assume "\<exists>ns n. Ev_MarkMigrationSkipped ns n None \<in> set evs1 \<and> Sprintf_key ns n = ?k"
        then obtain ns n where ev: "Ev_MarkMigrationSkipped ns n None \<in> set evs1" and k: "Sprintf_key ns n = ?k"
          by blast
        from executed(3) have "bootstrap_pass DefaultDatabaseMigrationStorage items
            (build_appliedSet applied Map.empty) (build_namespaceHasRecords applied Map.empty) wb
              = (None, appliedSet', nsHas', wc, evs1)"
          by simp
        from bootstrap_pass_events_item [OF this ev] named have ne: "ns \<noteq> []"
          by auto
        from ev have "Ev_MarkMigrationSkipped ns n None \<in> set tr"
          using executed(6) by simp
        from written_row_mem [OF this] have "(ns, n, ''skip'', True) \<in> set (written tr)"
          using ne by (simp add: stored_namespace_nonempty)
        from wr [OF this] k show ?thesis by simp
      qed
    qed
  qed simp_all
qed

lemma run_on_recorded_keys:
  assumes run: "RunMigrations now (defaultManager items) w = (res, w', tr)"
    and all: "\<forall>item \<in> set items. \<exists>row \<in> set (migration_logs w). Success row
           \<and> Sprintf_key (Namespace row) (Migration row) = Sprintf_key (ItemNamespace item) (ItemName item)"
  shows "invocations tr = [] \<and> filter is_write tr = []"
  using run
proof (cases rule: RunMigrations_cases)
  case (lock_error locked err)
  then show ?thesis by simp
next
  case contention
  then show ?thesis by simp
next
  case (load_error w1 err w2 ur)
  then show ?thesis by simp
next
  case (skip_error w1 applied w2 err appliedSet' nsHas' w3 evs1 ur)
  have "migration_logs w1 = migration_logs w"
    using skip_error(1) by (simp add: RedisLockProvider_Lock_logs)
  moreover have "applied = map (\<lambda>log. Sprintf_key (Namespace log) (Migration log)) (filter Success (migration_logs w1))"
    using skip_error(2) GetAppliedMigrations_keys [of w1 applied w2] by simp
  ultimately have "\<forall>item \<in> set items. Sprintf_key (ItemNamespace item) (ItemName item) \<in> set applied"
    using all by force
  then have "\<forall>item \<in> set (migrations (defaultManager items)).
               map_index (build_appliedSet applied Map.empty) (Sprintf_key (ItemNamespace item) (ItemName item))"
    by (simp add: map_index_build_appliedSet)
  from bootstrap_pass_all_applied [OF this] skip_error(3) show ?thesis by simp
next
  case (executed w1 applied w2 appliedSet' nsHas' w3 evs1 w4 evs2 ur)
  have "migration_logs w1 = migration_logs w"
    using executed(1) by (simp add: RedisLockProvider_Lock_logs)
  moreover have "applied = map (\<lambda>log. Sprintf_key (Namespace log) (Migration log)) (filter Success (migration_logs w1))"
    using executed(2) GetAppliedMigrations_keys [of w1 applied w2] by simp
  ultimately have "\<forall>item \<in> set items. Sprintf_key (ItemNamespace item) (ItemName item) \<in> set applied"
    using all by force
  then have ap: "\<forall>item \<in> set (migrations (defaultManager items)).
               map_index (build_appliedSet applied Map.empty) (Sprintf_key (ItemNamespace item) (ItemName item))"
    by (simp add: map_index_build_appliedSet)
  from bootstrap_pass_all_applied [OF ap] executed(3)
  have b: "appliedSet' = build_appliedSet applied Map.empty" "evs1 = []"
    by simp_all
  from execution_pass_all_applied [OF ap] executed(4) b(1)
  have "evs2 = []" by simp
  with b(2) executed(6) show ?thesis by simp
qed

section \<open>What the failure text contains; the calls before a failure\<close>

lemma Contains_infix: "Contains (a @ sub @ b) sub"
proof (induction a)
  case Nil
  show ?case
  proof (cases "sub @ b")
    case Nil
    then show ?thesis by simp
  next
    case (Cons c cs)
    have "take (length sub) (sub @ b) = sub" by simp
    with Cons show ?thesis by (metis Contains.simps(2) append_Nil)
  qed
next
  case (Cons x a)
  then show ?case by simp
qed

lemma Join_Cons: "\<exists>rest. Join (x # xs) sep = x @ rest"
  by (cases xs) simp_all

lemma failureText_Contains:
  "Contains (failureText err (start # ls)) start \<and> Contains (failureText err (start # ls)) (Error err)"
proof -
  obtain rest where j: "Join (start # ls) ''\<newline>'' = start @ rest"
    using Join_Cons by blast
  have 1: "failureText err (start # ls) = (''Migration failed: '' @ Error err @ ''\<newline>Logs:\<newline>'') @ start @ rest"
    by (simp add: failureText_def j)
  have 2: "failureText err (start # ls) = ''Migration failed: '' @ Error err @ (''\<newline>Logs:\<newline>'' @ start @ rest)"
    by (simp add: failureText_def j)
  show ?thesis
    using Contains_infix [of "''Migration failed: '' @ Error err @ ''\<newline>Logs:\<newline>''" start rest]
      Contains_infix [of "''Migration failed: ''" "Error err" "''\<newline>Logs:\<newline>'' @ start @ rest"]
    by (simp only: 1 [symmetric] 2 [symmetric])
qed

lemma written_mem: "d \<in> set (written tr) \<Longrightarrow> \<exists>ev \<in> set tr. written_row ev = Some d"
  by (induction tr) (auto split: option.splits)

lemma bootstrap_pass_skipped_key:
  "bootstrap_pass st items appliedSet nsHas w = (res, appliedSet', nsHas', w', evs) \<Longrightarrow>
   Ev_MarkMigrationSkipped ns n None \<in> set evs \<Longrightarrow> map_index appliedSet' (Sprintf_key ns n)"
proof (induction items arbitrary: appliedSet nsHas w evs)
  case Nil
  then show ?case by simp
next
  case (Cons item rest)
  from Cons.prems(1) show ?case
  proof (cases rule: bootstrap_pass_cases)
    case keep
    then show ?thesis using Cons.IH Cons.prems(2) by blast
  next
    case (skip_error err)
    then show ?thesis using Cons.prems(2) by simp
  next
    case (skipped w1 evs')
    show ?thesis
    proof (cases "Ev_MarkMigrationSkipped ns n None \<in> set evs'")
      case True
      from Cons.IH [OF skipped(4) True] show ?thesis .
    next
      case False
      with Cons.prems(2) skipped(5) have "ns = ItemNamespace item" "n = ItemName item" by auto
      then have "map_index (appliedSet(Sprintf_key (ItemNamespace item) (ItemName item) \<mapsto> True)) (Sprintf_key ns n)"
        by (simp add: map_index_upd)
      from bootstrap_pass_appliedSet_mono [OF skipped(4) this] show ?thesis .
    qed
  qed
qed

lemma execution_pass_failure_prefix:
  "execution_pass st now appliedSet i0 items w = (res, w', evs) \<Longrightarrow>
   Ev_Func i ls (Some err) \<in> set evs \<Longrightarrow>
   \<exists>pre t r.
      evs = pre @ [Ev_Func i ls (Some err),
                   Ev_MarkMigrationFailed (ItemNamespace (items ! (i - i0))) (ItemName (items ! (i - i0)))
                     (failureText err
                        (startMarker (ItemNamespace (items ! (i - i0))) (ItemName (items ! (i - i0))) t # ls)) r]
      \<and> (\<forall>ev \<in> set pre.
            (\<exists>j ls'. ev = Ev_Func j ls' None)
            \<or> (\<exists>j. i0 \<le> j \<and> j < i
                  \<and> ev = Ev_MarkMigrationApplied (ItemNamespace (items ! (j - i0))) (ItemName (items ! (j - i0))) None))"
proof (induction items arbitrary: i0 w evs)
  case Nil
  then show ?case by simp
next
  case (Cons item rest)
  from Cons.prems(1) show ?case
  proof (cases rule: execution_pass_cases)
    case skip
    from execution_pass_failure [OF skip(2) Cons.prems(2)] have le: "Suc i0 \<le> i" by simp
    then have idx: "(item # rest) ! (i - i0) = rest ! (i - Suc i0)"
      by (simp add: Suc_diff_le)
    from Cons.IH [OF skip(2) Cons.prems(2)]
    obtain pre t r where
      evs: "evs = pre @ [Ev_Func i ls (Some err),
                   Ev_MarkMigrationFailed (ItemNamespace (rest ! (i - Suc i0))) (ItemName (rest ! (i - Suc i0)))
                     (failureText err
                        (startMarker (ItemNamespace (rest ! (i - Suc i0))) (ItemName (rest ! (i - Suc i0))) t # ls)) r]"
      and pre: "\<forall>ev \<in> set pre.
            (\<exists>j ls'. ev = Ev_Func j ls' None)
            \<or> (\<exists>j. Suc i0 \<le> j \<and> j < i
                  \<and> ev = Ev_MarkMigrationApplied (ItemNamespace (rest ! (j - Suc i0))) (ItemName (rest ! (j - Suc i0))) None)"
      by blast
    have pre': "\<forall>ev \<in> set pre.
            (\<exists>j ls'. ev = Ev_Func j ls' None)
            \<or> (\<exists>j. i0 \<le> j \<and> j < i
                  \<and> ev = Ev_MarkMigrationApplied (ItemNamespace ((item # rest) ! (j - i0))) (ItemName ((item # rest) ! (j - i0))) None)"
    proof
      fix ev assume "ev \<in> set pre"
      with pre consider (f) j ls' where "ev = Ev_Func j ls' None"
        | (a) j where "Suc i0 \<le> j" "j < i"
            "ev = Ev_MarkMigrationApplied (ItemNamespace (rest ! (j - Suc i0))) (ItemName (rest ! (j - Suc i0))) None"
        by blast
      then show "(\<exists>j ls'. ev = Ev_Func j ls' None)
            \<or> (\<exists>j. i0 \<le> j \<and> j < i
                  \<and> ev = Ev_MarkMigrationApplied (ItemNamespace ((item # rest) ! (j - i0))) (ItemName ((item # rest) ! (j - i0))) None)"
      proof cases
        case f
        then show ?thesis by blast
      next
        case a
        from a(1) have "(item # rest) ! (j - i0) = rest ! (j - Suc i0)"
          by (simp add: Suc_diff_le)
        with a have "i0 \<le> j \<and> j < i
                  \<and> ev = Ev_MarkMigrationApplied (ItemNamespace ((item # rest) ! (j - i0))) (ItemName ((item # rest) ! (j - i0))) None"
          by simp
        then show ?thesis by blast
      qed
    qed
    from evs pre' idx show ?thesis by auto
  next
    case (fail ls' err' w1 r)
    with Cons.prems(2) have "i = i0" "ls' = ls" "err' = err" by auto
    with fail(5) have "evs = [] @ [Ev_Func i ls (Some err),
                   Ev_MarkMigrationFailed (ItemNamespace ((item # rest) ! (i - i0))) (ItemName ((item # rest) ! (i - i0)))
                     (failureText err
                        (startMarker (ItemNamespace ((item # rest) ! (i - i0))) (ItemName ((item # rest) ! (i - i0))) (now w) # ls)) r]"
      by simp
    then show ?thesis by (metis empty_iff list.set(1))
  next
    case (mark_error ls' w1 err')
    with Cons.prems(2) show ?thesis by auto
  next
    case (applied ls' w1 w2 evs')
    with Cons.prems(2) have mem: "Ev_Func i ls (Some err) \<in> set evs'" by auto
    from execution_pass_failure [OF applied(4) mem] have le: "Suc i0 \<le> i" by simp
    then have idx: "(item # rest) ! (i - i0) = rest ! (i - Suc i0)"
      by (simp add: Suc_diff_le)
    from Cons.IH [OF applied(4) mem]
    obtain pre t r where
      evs': "evs' = pre @ [Ev_Func i ls (Some err),
                   Ev_MarkMigrationFailed (ItemNamespace (rest ! (i - Suc i0))) (ItemName (rest ! (i - Suc i0)))
                     (failureText err
                        (startMarker (ItemNamespace (rest ! (i - Suc i0))) (ItemName (rest ! (i - Suc i0))) t # ls)) r]"
      and pre: "\<forall>ev \<in> set pre.
            (\<exists>j ls'. ev = Ev_Func j ls' None)
            \<or> (\<exists>j. Suc i0 \<le> j \<and> j < i
                  \<and> ev = Ev_MarkMigrationApplied (ItemNamespace (rest ! (j - Suc i0))) (ItemName (rest ! (j - Suc i0))) None)"
      by blast
    let ?pre = "Ev_Func i0 ls' None # Ev_MarkMigrationApplied (ItemNamespace item) (ItemName item) None # pre"
    have pre': "\<forall>ev \<in> set ?pre.
            (\<exists>j ls'. ev = Ev_Func j ls' None)
            \<or> (\<exists>j. i0 \<le> j \<and> j < i
                  \<and> ev = Ev_MarkMigrationApplied (ItemNamespace ((item # rest) ! (j - i0))) (ItemName ((item # rest) ! (j - i0))) None)"
    proof
      fix ev assume "ev \<in> set ?pre"
      then consider (h1) "ev = Ev_Func i0 ls' None"
        | (h2) "ev = Ev_MarkMigrationApplied (ItemNamespace item) (ItemName item) None"
        | (f) j ls'' where "ev = Ev_Func j ls'' None"
        | (a) j where "Suc i0 \<le> j" "j < i"
            "ev = Ev_MarkMigrationApplied (ItemNamespace (rest ! (j - Suc i0))) (ItemName (rest ! (j - Suc i0))) None"
        using pre by auto
      then show "(\<exists>j ls'. ev = Ev_Func j ls' None)
            \<or> (\<exists>j. i0 \<le> j \<and> j < i
                  \<and> ev = Ev_MarkMigrationApplied (ItemNamespace ((item # rest) ! (j - i0))) (ItemName ((item # rest) ! (j - i0))) None)"
      proof cases
        case h1
        then show ?thesis by blast
      next
        case h2
        with le have "i0 \<le> i0 \<and> i0 < i
                  \<and> ev = Ev_MarkMigrationApplied (ItemNamespace ((item # rest) ! (i0 - i0))) (ItemName ((item # rest) ! (i0 - i0))) None"
          by simp
        then show ?thesis by blast
      next
        case f
        then show ?thesis by blast
      next
        case a
        from a(1) have "(item # rest) ! (j - i0) = rest ! (j - Suc i0)"
          by (simp add: Suc_diff_le)
        with a have "i0 \<le> j \<and> j < i
                  \<and> ev = Ev_MarkMigrationApplied (ItemNamespace ((item # rest) ! (j - i0))) (ItemName ((item # rest) ! (j - i0))) None"
          by simp
        then show ?thesis by blast
      qed
    qed
    have "evs = ?pre @ [Ev_Func i ls (Some err),
                   Ev_MarkMigrationFailed (ItemNamespace ((item # rest) ! (i - i0))) (ItemName ((item # rest) ! (i - i0)))
                     (failureText err
                        (startMarker (ItemNamespace ((item # rest) ! (i - i0))) (ItemName ((item # rest) ! (i - i0))) t # ls)) r]"
      using applied(5) evs' idx by simp
    with pre' show ?thesis by blast
  qed
qed


section \<open>The recorded calls are the calls made\<close>

lemma replay_append:
  "replay now m (xs @ ys) w =
     (case replay now m xs w of None \<Rightarrow> None | Some w1 \<Rightarrow> replay now m ys w1)"
  by (induction xs arbitrary: w) (simp_all split: option.splits)

lemma replay_appendI:
  "replay now m xs w = Some w1 \<Longrightarrow> replay now m ys w1 = Some w2 \<Longrightarrow> replay now m (xs @ ys) w = Some w2"
  by (simp add: replay_append)

lemma drop_eq_ConsD:
  assumes "drop i xs = a # r"
  shows "i < length xs \<and> xs ! i = a \<and> drop (Suc i) xs = r"
proof -
  have len: "i < length xs"
  proof (rule ccontr)
    assume "\<not> i < length xs"
    then have "drop i xs = []" by simp
    with assms show False by simp
  qed
  then have "xs ! i # drop (Suc i) xs = drop i xs"
    by (rule Cons_nth_drop_Suc)
  with assms len show ?thesis by simp
qed

lemma bootstrap_pass_replay:
  "bootstrap_pass (storage m) items appliedSet nsHas w = (res, appliedSet', nsHas', w', evs) \<Longrightarrow>
   replay now m evs w = Some w'"
proof (induction items arbitrary: appliedSet nsHas w evs)
  case Nil
  then show ?case by simp
next
  case (Cons item rest)
  from Cons.prems show ?case
  proof (cases rule: bootstrap_pass_cases)
    case keep
    from Cons.IH [OF keep(2)] show ?thesis .
  next
    case (skip_error err)
    then show ?thesis by simp
  next
    case (skipped w1 evs')
    from Cons.IH [OF skipped(4)] have "replay now m evs' w1 = Some w'" .
    with skipped(3,5) show ?thesis by simp
  qed
qed

lemma execution_pass_replay:
  "execution_pass (storage m) now appliedSet i0 items w = (res, w', evs) \<Longrightarrow>
   drop i0 (migrations m) = items \<Longrightarrow>
   replay now m evs w = Some w'"
proof (induction items arbitrary: i0 w evs)
  case Nil
  then show ?case by simp
next
  case (Cons item rest)
  from drop_eq_ConsD [OF Cons.prems(2)]
  have at: "i0 < length (migrations m)" "migrations m ! i0 = item" "drop (Suc i0) (migrations m) = rest"
    by simp_all
  from Cons.prems(1) show ?case
  proof (cases rule: execution_pass_cases)
    case skip
    from Cons.IH [OF skip(2) at(3)] show ?thesis .
  next
    case (fail ls err w1 r)
    with at(1,2) show ?thesis by simp
  next
    case (mark_error ls w1 err)
    with at(1,2) show ?thesis by simp
  next
    case (applied ls w1 w2 evs')
    from Cons.IH [OF applied(4) at(3)] have "replay now m evs' w2 = Some w'" .
    with applied(2,3,5) at(1,2) show ?thesis by simp
  qed
qed

lemma run_locked_replay:
  assumes "run_locked now m w = (res, w', evs)"
  shows "replay now m evs w = Some w'"
proof -
  obtain r w1 where get: "GetAppliedMigrations (storage m) w = (r, w1)"
    by (metis surj_pair)
  show ?thesis
  proof (cases r)
    case (Inl err)
    with assms get show ?thesis by (auto simp: run_locked_def)
  next
    case (Inr applied)
    obtain e aS nH w2 evs1 where bs:
      "bootstrap_pass (storage m) (migrations m) (build_appliedSet applied Map.empty)
         (build_namespaceHasRecords applied Map.empty) w1 = (e, aS, nH, w2, evs1)"
      by (metis prod_cases5)
    from bootstrap_pass_replay [OF bs] have r1: "replay now m evs1 w1 = Some w2" .
    show ?thesis
    proof (cases e)
      case (Some err)
      with assms get Inr bs r1 show ?thesis by (auto simp: run_locked_def)
    next
      case None
      obtain e2 w3 evs2 where ex: "execution_pass (storage m) now aS 0 (migrations m) w2 = (e2, w3, evs2)"
        by (metis prod_cases3)
      from execution_pass_replay [OF ex] have r2: "replay now m evs2 w2 = Some w3" by simp
      from assms get Inr bs None ex have "w' = w3" "evs = Ev_GetAppliedMigrations (Inr applied) # evs1 @ evs2"
        by (auto simp: run_locked_def)
      with get Inr replay_appendI [OF r1 r2] show ?thesis by simp
    qed
  qed
qed

lemma RunMigrations_replay:
  assumes "RunMigrations now m w = (res, w', tr)"
  shows "replay now m tr w = Some w'"
proof -
  obtain locked err w1 where lock: "Lock (lockProvider m) lockKey lockTimeout w = ((locked, err), w1)"
    by (metis surj_pair)
  show ?thesis
  proof (cases "err = None \<and> locked")
    case False
    with assms lock show ?thesis
      by (cases err) (auto simp: RunMigrations_def split: if_splits)
  next
    case True
    obtain r w2 evs where body: "run_locked now m w1 = (r, w2, evs)"
      by (metis prod_cases3)
    obtain ur w3 where ul: "Unlock (lockProvider m) lockKey w2 = (ur, w3)"
      by (metis surj_pair)
    from assms lock True body ul
    have tr: "tr = Ev_Lock lockKey lockTimeout True None # evs @ [Ev_Unlock lockKey ur]" and w': "w' = w3"
      by (auto simp: RunMigrations_def)
    have "replay now m [Ev_Unlock lockKey ur] w2 = Some w3"
      using ul by simp
    from replay_appendI [OF run_locked_replay [OF body] this]
    show ?thesis using tr w' lock True by simp
  qed
qed


lemma bootstrap_pass_namespace_with_records:
  "map_index nsHas ns \<Longrightarrow>
   bootstrap_pass st items appliedSet nsHas w
     = bootstrap_pass st (filter (\<lambda>item. ItemNamespace item \<noteq> ns) items) appliedSet nsHas w"
proof (induction items arbitrary: appliedSet nsHas w)
  case Nil
  then show ?case by simp
next
  case (Cons item rest)
  show ?case
  proof (cases "ItemNamespace item = ns")
    case True
    with Cons.prems Cons.IH [OF Cons.prems] show ?thesis by simp
  next
    case False
    have kept: "map_index (nsHas(ItemNamespace item \<mapsto> True)) ns"
      using Cons.prems by (simp add: map_index_upd)
    have 1: "bootstrap_pass st rest appliedSet nsHas w
               = bootstrap_pass st (filter (\<lambda>item. ItemNamespace item \<noteq> ns) rest) appliedSet nsHas w"
      by (rule Cons.IH [OF Cons.prems])
    have 2: "\<And>aS w1. bootstrap_pass st rest aS (nsHas(ItemNamespace item \<mapsto> True)) w1
               = bootstrap_pass st (filter (\<lambda>item. ItemNamespace item \<noteq> ns) rest) aS
                   (nsHas(ItemNamespace item \<mapsto> True)) w1"
      by (rule Cons.IH [OF kept])
    from False show ?thesis
      by (simp add: 1 2 Let_def split: prod.splits option.splits)
  qed
qed

lemma bootstrap_pass_namespace_kept:
  "bootstrap_pass st items appliedSet nsHas w = (res, appliedSet', nsHas', w', evs) \<Longrightarrow>
   map_index nsHas ns \<Longrightarrow>
   map_index nsHas' ns \<and> Ev_MarkMigrationSkipped ns n r \<notin> set evs"
proof (induction items arbitrary: appliedSet nsHas w evs)
  case Nil
  then show ?case by simp
next
  case (Cons item rest)
  from Cons.prems(1) show ?case
  proof (cases rule: bootstrap_pass_cases)
    case keep
    from Cons.IH [OF keep(2) Cons.prems(2)] show ?thesis .
  next
    case (skip_error err)
    from skip_error(1) Cons.prems(2) have "ItemNamespace item \<noteq> ns" by auto
    with skip_error(6,7) Cons.prems(2) show ?thesis by simp
  next
    case (skipped w1 evs')
    from skipped(1) Cons.prems(2) have other: "ItemNamespace item \<noteq> ns" by auto
    have "map_index (nsHas(ItemNamespace item \<mapsto> True)) ns"
      using Cons.prems(2) by (simp add: map_index_upd)
    from Cons.IH [OF skipped(4) this] other skipped(5) show ?thesis by simp
  qed
qed

section \<open>Lock handling\<close>

text \<open>
  C8. When \<open>Lock\<close> answers "not acquired" without an error, \<open>RunMigrations\<close> returns the
  error "migration is already running"; the only call of the run is that \<open>Lock\<close>: no
  storage method, no migration function and no \<open>Unlock\<close> is called, and the world is the
  one \<open>Lock\<close> left.
\<close>

theorem contention_aborts:
  assumes "Lock (lockProvider m) lockKey lockTimeout w = ((False, None), w1)"
  shows "RunMigrations now m w =
           (Some (ErrorString ''migration is already running''), w1,
            [Ev_Lock ''migrate_lock'' 60 False None])"
  using assms by (simp add: RunMigrations_def lockKey_def lockTimeout_def)

theorem contention_aborts_witness:
  "Lock (lockProvider (defaultManager [ex_item ''app'' ''m1'' ex_ok])) lockKey lockTimeout
      (ex_world_locked []) = ((False, None), ex_world_locked [])
   \<and> RunMigrations ex_now (defaultManager [ex_item ''app'' ''m1'' ex_ok]) (ex_world_locked []) =
       (Some (ErrorString ''migration is already running''), ex_world_locked [],
        [Ev_Lock ''migrate_lock'' 60 False None])"
proof -
  have h: "Lock (lockProvider (defaultManager [ex_item ''app'' ''m1'' ex_ok])) lockKey lockTimeout
      (ex_world_locked []) = ((False, None), ex_world_locked [])"
    by (simp add: run_defs ex_defs)
  from contention_aborts [OF h] h show ?thesis by simp
qed

text \<open>
  C9. Take a run whose \<open>Lock\<close> call answers "acquired" without an error. Its calls are
  that \<open>Lock\<close>, then calls none of which is an \<open>Unlock\<close>, then one \<open>Unlock\<close> on the lock
  key. The calls in between are really the calls made since the lock was taken (replayed
  from the world \<open>Lock\<close> left they give the recorded results), the \<open>Unlock\<close> of the
  manager's lock provider is called in the world they leave, and the world it leaves is
  the world the run ends in. This holds whatever happens in between: the history cannot be
  loaded, a skip record cannot be written, a migration fails, the applied record cannot be
  written, or everything succeeds.
\<close>

theorem unlock_exactly_once:
  assumes "Lock (lockProvider m) lockKey lockTimeout w = ((True, None), w1)"
    and "RunMigrations now m w = (res, w', tr)"
  shows "\<exists>evs w2 ur.
           tr = Ev_Lock lockKey lockTimeout True None # evs @ [Ev_Unlock lockKey ur]
         \<and> filter is_unlock evs = []
         \<and> replay now m evs w1 = Some w2
         \<and> Unlock (lockProvider m) lockKey w2 = (ur, w')"
proof -
  obtain r w2 evs where body: "run_locked now m w1 = (r, w2, evs)"
    by (metis prod_cases3)
  obtain ur w3 where ul: "Unlock (lockProvider m) lockKey w2 = (ur, w3)"
    by (metis surj_pair)
  from assms body ul
  have tr: "tr = Ev_Lock lockKey lockTimeout True None # evs @ [Ev_Unlock lockKey ur]" and w': "w' = w3"
    by (auto simp: RunMigrations_def)
  from body have "filter is_unlock evs = []" by (rule run_locked_no_unlock)
  moreover from body have "replay now m evs w1 = Some w2" by (rule run_locked_replay)
  ultimately show ?thesis using tr ul w' by blast
qed

theorem unlock_exactly_once_witness:
  "Lock (lockProvider (defaultManager [ex_item ''app'' ''m1'' ex_fail])) lockKey lockTimeout
      (ex_world [ex_row ''app'' ''m0'' True]) =
      ((True, None), ex_world_locked [ex_row ''app'' ''m0'' True])
   \<and> (\<exists>evs w2 ur.
         snd (snd (RunMigrations ex_now (defaultManager [ex_item ''app'' ''m1'' ex_fail])
                 (ex_world [ex_row ''app'' ''m0'' True])))
           = Ev_Lock lockKey lockTimeout True None # evs @ [Ev_Unlock lockKey ur]
       \<and> filter is_unlock evs = []
       \<and> replay ex_now (defaultManager [ex_item ''app'' ''m1'' ex_fail]) evs
             (ex_world_locked [ex_row ''app'' ''m0'' True]) = Some w2
       \<and> Unlock (lockProvider (defaultManager [ex_item ''app'' ''m1'' ex_fail])) lockKey w2
           = (ur, fst (snd (RunMigrations ex_now (defaultManager [ex_item ''app'' ''m1'' ex_fail])
                 (ex_world [ex_row ''app'' ''m0'' True])))))
   \<and> redis_keys (fst (snd (RunMigrations ex_now (defaultManager [ex_item ''app'' ''m1'' ex_fail])
                 (ex_world [ex_row ''app'' ''m0'' True])))) ''migrate_lock'' = None"
proof -
  let ?m = "defaultManager [ex_item ''app'' ''m1'' ex_fail]"
  let ?X = "RunMigrations ex_now ?m (ex_world [ex_row ''app'' ''m0'' True])"
  have h: "Lock (lockProvider ?m) lockKey lockTimeout (ex_world [ex_row ''app'' ''m0'' True]) =
      ((True, None), ex_world_locked [ex_row ''app'' ''m0'' True])"
    by (simp add: run_defs ex_defs)
  have run: "?X = (fst ?X, fst (snd ?X), snd (snd ?X))" by simp
  have free: "redis_keys (fst (snd ?X)) ''migrate_lock'' = None"
    by (simp add: run_defs ex_defs)
  from unlock_exactly_once [OF h run] h free show ?thesis by blast
qed

section \<open>A failing migration\<close>



text \<open>
  C10. Take any run in which \<open>MarkMigrationFailed\<close> is called and itself returns an error.
  The call was made for a function that returned an error, and the run returns that
  function's error wrapped with the item's key: the storage error appears nowhere in the
  result. With the default storage, a \<open>MarkMigrationFailed\<close> that returns an error has
  written no row, so the failed attempt leaves no record.
\<close>

theorem markFailed_error_discarded:
  assumes "RunMigrations now m w = (res, w', tr)"
    and "Ev_MarkMigrationFailed ns name msg (Some serr) \<in> set tr"
  shows "(\<exists>i ls err. Ev_Func i ls (Some err) \<in> set tr \<and> res = Some (failureError ns name err))
     \<and> (\<forall>(w0 :: 'a world_scheme) e w1.
           DefaultDatabaseMigrationStorage_MarkMigrationFailed ns name msg w0 = (Some e, w1)
           \<longrightarrow> migration_logs w1 = migration_logs w0)"
proof -
  have "\<exists>i ls err. Ev_Func i ls (Some err) \<in> set tr \<and> res = Some (failureError ns name err)"
    using assms(1)
  proof (cases rule: RunMigrations_cases)
    case (lock_error locked e)
    with assms(2) show ?thesis by simp
  next
    case contention
    with assms(2) show ?thesis by simp
  next
    case (load_error w1 e w2 ur)
    with assms(2) show ?thesis by simp
  next
    case (skip_error w1 applied w2 e appliedSet' nsHas' w3 evs1 ur)
    from assms(2) skip_error(6) have "Ev_MarkMigrationFailed ns name msg (Some serr) \<in> set evs1" by simp
    with bootstrap_pass_events [OF skip_error(3)] show ?thesis by blast
  next
    case (executed w1 applied w2 appliedSet' nsHas' w3 evs1 w4 evs2 ur)
    have "Ev_MarkMigrationFailed ns name msg (Some serr) \<notin> set evs1"
      using bootstrap_pass_events [OF executed(3)] by blast
    with assms(2) executed(6) have "Ev_MarkMigrationFailed ns name msg (Some serr) \<in> set evs2" by simp
    from execution_pass_markFailed [OF executed(4) this] executed(6) show ?thesis by auto
  qed
  then show ?thesis
    using DefaultDatabaseMigrationStorage_MarkMigrationFailed_error by blast
qed

theorem markFailed_error_discarded_witness:
  "Ev_MarkMigrationFailed ''app'' ''m1''
      (failureText (ErrorString ''boom'') [startMarker ''app'' ''m1'' ''T0'', ''step 1''])
      (Some (ErrorString ''db down''))
     \<in> set (snd (snd (RunMigrations ex_now (defaultManager [ex_item ''app'' ''m1'' ex_fail])
          (ex_world_db_down [ex_row ''app'' ''m0'' True]))))
   \<and> fst (RunMigrations ex_now (defaultManager [ex_item ''app'' ''m1'' ex_fail])
          (ex_world_db_down [ex_row ''app'' ''m0'' True]))
       = Some (failureError ''app'' ''m1'' (ErrorString ''boom''))
   \<and> migration_logs (fst (snd (RunMigrations ex_now (defaultManager [ex_item ''app'' ''m1'' ex_fail])
          (ex_world_db_down [ex_row ''app'' ''m0'' True]))))
       = [ex_row ''app'' ''m0'' True]"
proof -
  let ?X = "RunMigrations ex_now (defaultManager [ex_item ''app'' ''m1'' ex_fail])
          (ex_world_db_down [ex_row ''app'' ''m0'' True])"
  have run: "?X = (fst ?X, fst (snd ?X), snd (snd ?X))" by simp
  have tr: "snd (snd ?X) =
      [Ev_Lock ''migrate_lock'' 60 True None,
       Ev_GetAppliedMigrations (Inr [''app:m0'']),
       Ev_Func 0 [''step 1''] (Some (ErrorString ''boom'')),
       Ev_MarkMigrationFailed ''app'' ''m1''
         (failureText (ErrorString ''boom'') [startMarker ''app'' ''m1'' ''T0'', ''step 1''])
         (Some (ErrorString ''db down'')),
       Ev_Unlock ''migrate_lock'' (None)]"
    by (simp add: run_defs ex_defs text_defs)
  have ev: "Ev_MarkMigrationFailed ''app'' ''m1''
      (failureText (ErrorString ''boom'') [startMarker ''app'' ''m1'' ''T0'', ''step 1''])
      (Some (ErrorString ''db down'')) \<in> set (snd (snd ?X))"
    by (simp add: tr)
  have logs: "migration_logs (fst (snd ?X)) = [ex_row ''app'' ''m0'' True]"
    by (simp add: run_defs ex_defs)
  from markFailed_error_discarded [OF run ev]
  obtain i ls err where
    f: "Ev_Func i ls (Some err) \<in> set (snd (snd ?X))"
    and r: "fst ?X = Some (failureError ''app'' ''m1'' err)"
    by blast
  from f have "err = ErrorString ''boom''" by (simp add: tr)
  with r have res: "fst ?X = Some (failureError ''app'' ''m1'' (ErrorString ''boom''))" by simp
  from ev res logs show ?thesis by blast
qed

section \<open>Two runs that invoke more than the history allows\<close>

text \<open>
  C1. A run on an empty history with two registrations of the namespace \<open>tenantX\<close>: the
  loop marks \<open>m1\<close> as skipped and thereby sets \<open>namespaceHasRecords["tenantX"]\<close>, so \<open>m2\<close>
  is not skipped; the second loop then invokes the function of \<open>m2\<close> (position 1) and
  records it as applied.
\<close>

theorem fresh_namespace_second_item_runs:
  "snd (snd (RunMigrations ex_now
      (defaultManager [ex_item ''tenantX'' ''m1'' ex_ok, ex_item ''tenantX'' ''m2'' ex_ok]) (ex_world [])))
   = [Ev_Lock ''migrate_lock'' 60 True None,
      Ev_GetAppliedMigrations (Inr []),
      Ev_MarkMigrationSkipped ''tenantX'' ''m1'' None,
      Ev_Func 1 [] None,
      Ev_MarkMigrationApplied ''tenantX'' ''m2'' None,
      Ev_Unlock ''migrate_lock'' None]"
  by (simp add: run_defs ex_defs)

text \<open>
  C2. A run with the key \<open>app:m1\<close> registered twice, on a history that holds \<open>app:m0\<close>
  only: the second loop does not add a key to \<open>appliedSet\<close> after \<open>MarkMigrationApplied\<close>,
  so both registrations are invoked and two applied records are written for the key.
\<close>

theorem duplicate_registration_runs_twice:
  "snd (snd (RunMigrations ex_now
      (defaultManager [ex_item ''app'' ''m1'' ex_ok, ex_item ''app'' ''m1'' ex_ok])
      (ex_world [ex_row ''app'' ''m0'' True])))
   = [Ev_Lock ''migrate_lock'' 60 True None,
      Ev_GetAppliedMigrations (Inr [''app:m0'']),
      Ev_Func 0 [] None,
      Ev_MarkMigrationApplied ''app'' ''m1'' None,
      Ev_Func 1 [] None,
      Ev_MarkMigrationApplied ''app'' ''m1'' None,
      Ev_Unlock ''migrate_lock'' None]"
  by (simp add: run_defs ex_defs)

section \<open>The history loaded at the start of a run\<close>

text \<open>
  C5. Run the default manager on a world whose log table holds a row with
  \<open>success = true\<close> whose composite key is the key of the registration at position \<open>i\<close>.
  Then the function of that registration is not invoked in the run, whatever other rows
  (failed ones included) the table holds for the key.
\<close>

theorem applied_key_never_invoked:
  assumes "RunMigrations now (defaultManager items) w = (res, w', tr)"
    and "r \<in> set (migration_logs w)"
    and "Success r"
    and "Sprintf_key (ItemNamespace (items ! i)) (ItemName (items ! i)) = Sprintf_key (Namespace r) (Migration r)"
  shows "i \<notin> set (invocations tr)"
proof (rule applied_key_not_invoked [OF assms(1)])
  fix w1 ks w2
  assume lock: "Lock (lockProvider (defaultManager items)) lockKey lockTimeout w = ((True, None), w1)"
    and get: "GetAppliedMigrations (storage (defaultManager items)) w1 = (Inr ks, w2)"
  from lock have "migration_logs w1 = migration_logs w"
    by (simp add: RedisLockProvider_Lock_logs)
  with get have "ks = map (\<lambda>log. Sprintf_key (Namespace log) (Migration log)) (filter Success (migration_logs w))"
    using GetAppliedMigrations_keys [of w1 ks w2] by simp
  with assms(2,3,4)
  show "Sprintf_key (ItemNamespace (migrations (defaultManager items) ! i))
          (ItemName (migrations (defaultManager items) ! i)) \<in> set ks"
    by auto
qed

theorem applied_key_never_invoked_witness:
  "ex_row ''app'' ''m1'' True \<in> set (migration_logs (ex_world [ex_row ''app'' ''m1'' False, ex_row ''app'' ''m1'' True, ex_row ''app'' ''m1'' False]))
   \<and> Success (ex_row ''app'' ''m1'' True)
   \<and> 0 \<notin> set (invocations (snd (snd (RunMigrations ex_now (defaultManager [ex_item ''app'' ''m1'' ex_fail])
         (ex_world [ex_row ''app'' ''m1'' False, ex_row ''app'' ''m1'' True, ex_row ''app'' ''m1'' False])))))"
proof -
  let ?w = "ex_world [ex_row ''app'' ''m1'' False, ex_row ''app'' ''m1'' True, ex_row ''app'' ''m1'' False]"
  let ?items = "[ex_item ''app'' ''m1'' ex_fail]"
  let ?X = "RunMigrations ex_now (defaultManager ?items) ?w"
  have run: "?X = (fst ?X, fst (snd ?X), snd (snd ?X))" by simp
  have mem: "ex_row ''app'' ''m1'' True \<in> set (migration_logs ?w)"
    by (simp add: ex_defs)
  have ok: "Success (ex_row ''app'' ''m1'' True)"
    by (simp add: ex_defs)
  have key: "Sprintf_key (ItemNamespace (?items ! 0)) (ItemName (?items ! 0))
             = Sprintf_key (Namespace (ex_row ''app'' ''m1'' True)) (Migration (ex_row ''app'' ''m1'' True))"
    by (simp add: ex_defs)
  from applied_key_never_invoked [OF run mem ok key] mem ok show ?thesis by blast
qed

text \<open>
  C7, as the claim states it, fails: the applied key built from the namespace \<open>app\<close> and
  the name \<open>a:b\<close> splits into three parts, so \<open>app\<close> is not recorded as a namespace with
  records.
\<close>

theorem namespace_of_key_with_colon_in_name_not_recorded:
  "\<not> map_index (build_namespaceHasRecords [Sprintf_key ''app'' ''a:b''] Map.empty) ''app''"
  by (simp add: Sprintf_key_def map_index_def)

text \<open>
  C7, amended. After the history is loaded and before the loop over the registrations
  changes anything, a namespace is recorded as having records exactly when some applied key
  is \<open>namespace:name\<close> with no colon in the namespace and none in the name, that is, when
  the key splits at \<open>":"\<close> into exactly two parts of which the namespace is the first. Such
  a namespace is treated as having records during the whole loop: the loop runs as if the
  items of that namespace were not registered, the namespace is still recorded at its end,
  and no \<open>MarkMigrationSkipped\<close> call is made for the namespace.
\<close>

theorem namespaces_with_records:
  "(map_index (build_namespaceHasRecords appliedMigrations Map.empty) namespace \<longleftrightarrow>
     (\<exists>name. Sprintf_key namespace name \<in> set appliedMigrations
        \<and> CHR '':'' \<notin> set namespace \<and> CHR '':'' \<notin> set name))
   \<and> (map_index (build_namespaceHasRecords appliedMigrations Map.empty) namespace \<longrightarrow>
         bootstrap_pass st items appliedSet (build_namespaceHasRecords appliedMigrations Map.empty) w
           = bootstrap_pass st (filter (\<lambda>item. ItemNamespace item \<noteq> namespace) items) appliedSet
               (build_namespaceHasRecords appliedMigrations Map.empty) w
       \<and> (\<forall>res appliedSet' nsHas' w' evs n r.
             bootstrap_pass st items appliedSet (build_namespaceHasRecords appliedMigrations Map.empty) w
               = (res, appliedSet', nsHas', w', evs)
             \<longrightarrow> map_index nsHas' namespace \<and> Ev_MarkMigrationSkipped namespace n r \<notin> set evs))"
proof -
  have "\<not> map_index Map.empty namespace"
    by (simp add: map_index_def)
  with map_index_build_namespaceHasRecords [of appliedMigrations Map.empty namespace]
  have 1: "map_index (build_namespaceHasRecords appliedMigrations Map.empty) namespace \<longleftrightarrow>
     (\<exists>name. Sprintf_key namespace name \<in> set appliedMigrations
        \<and> CHR '':'' \<notin> set namespace \<and> CHR '':'' \<notin> set name)"
    by blast
  have 2: "bootstrap_pass st items appliedSet (build_namespaceHasRecords appliedMigrations Map.empty) w
           = bootstrap_pass st (filter (\<lambda>item. ItemNamespace item \<noteq> namespace) items) appliedSet
               (build_namespaceHasRecords appliedMigrations Map.empty) w"
    if "map_index (build_namespaceHasRecords appliedMigrations Map.empty) namespace"
    using that by (rule bootstrap_pass_namespace_with_records)
  have 3: "map_index nsHas' namespace \<and> Ev_MarkMigrationSkipped namespace n r \<notin> set evs"
    if "map_index (build_namespaceHasRecords appliedMigrations Map.empty) namespace"
      and "bootstrap_pass st items appliedSet (build_namespaceHasRecords appliedMigrations Map.empty) w
               = (res, appliedSet', nsHas', w', evs)"
    for res appliedSet' nsHas' w' evs n r
    using that(2) that(1) by (rule bootstrap_pass_namespace_kept)
  show ?thesis
  proof (intro conjI impI allI)
    show "map_index (build_namespaceHasRecords appliedMigrations Map.empty) namespace \<longleftrightarrow>
     (\<exists>name. Sprintf_key namespace name \<in> set appliedMigrations
        \<and> CHR '':'' \<notin> set namespace \<and> CHR '':'' \<notin> set name)"
      by (rule 1)
  next
    assume "map_index (build_namespaceHasRecords appliedMigrations Map.empty) namespace"
    then show "bootstrap_pass st items appliedSet (build_namespaceHasRecords appliedMigrations Map.empty) w
           = bootstrap_pass st (filter (\<lambda>item. ItemNamespace item \<noteq> namespace) items) appliedSet
               (build_namespaceHasRecords appliedMigrations Map.empty) w"
      by (rule 2)
  next
    fix res appliedSet' nsHas' w' evs n r
    assume a: "map_index (build_namespaceHasRecords appliedMigrations Map.empty) namespace"
      and b: "bootstrap_pass st items appliedSet (build_namespaceHasRecords appliedMigrations Map.empty) w
               = (res, appliedSet', nsHas', w', evs)"
    from 3 [OF a b] show "map_index nsHas' namespace" by simp
    from 3 [OF a b] show "Ev_MarkMigrationSkipped namespace n r \<notin> set evs" by simp
  qed
qed

theorem namespaces_with_records_witness:
  "map_index (build_namespaceHasRecords [Sprintf_key ''app'' ''m1'', Sprintf_key ''app'' ''a:b''] Map.empty) ''app''
   \<and> \<not> map_index (build_namespaceHasRecords [Sprintf_key ''app'' ''m1'', Sprintf_key ''app'' ''a:b''] Map.empty) ''a''
   \<and> bootstrap_pass DefaultDatabaseMigrationStorage [ex_item ''app'' ''m2'' ex_ok] Map.empty
        (build_namespaceHasRecords [Sprintf_key ''app'' ''m1'', Sprintf_key ''app'' ''a:b''] Map.empty) (ex_world [])
      = (None, Map.empty,
         build_namespaceHasRecords [Sprintf_key ''app'' ''m1'', Sprintf_key ''app'' ''a:b''] Map.empty,
         ex_world [], [])"
proof -
  let ?applied = "[Sprintf_key ''app'' ''m1'', Sprintf_key ''app'' ''a:b'']"
  note inst = namespaces_with_records [of ?applied "''app''" DefaultDatabaseMigrationStorage
      "[ex_item ''app'' ''m2'' ex_ok]" Map.empty "ex_world []"]
  have "Sprintf_key ''app'' ''m1'' \<in> set ?applied
        \<and> CHR '':'' \<notin> set ''app'' \<and> CHR '':'' \<notin> set ''m1''"
    by simp
  with inst have 1: "map_index (build_namespaceHasRecords ?applied Map.empty) ''app''"
    by blast
  with inst have "bootstrap_pass DefaultDatabaseMigrationStorage [ex_item ''app'' ''m2'' ex_ok] Map.empty
        (build_namespaceHasRecords ?applied Map.empty) (ex_world [])
      = bootstrap_pass DefaultDatabaseMigrationStorage
          (filter (\<lambda>item. ItemNamespace item \<noteq> ''app'') [ex_item ''app'' ''m2'' ex_ok]) Map.empty
          (build_namespaceHasRecords ?applied Map.empty) (ex_world [])"
    by blast
  then have 3: "bootstrap_pass DefaultDatabaseMigrationStorage [ex_item ''app'' ''m2'' ex_ok] Map.empty
        (build_namespaceHasRecords ?applied Map.empty) (ex_world [])
      = (None, Map.empty, build_namespaceHasRecords ?applied Map.empty, ex_world [], [])"
    by (simp add: ex_item_def)
  have 2: "\<not> map_index (build_namespaceHasRecords ?applied Map.empty) ''a''"
    by (simp add: Sprintf_key_def map_index_def)
  from 1 2 3 show ?thesis by blast
qed

section \<open>Running again\<close>

text \<open>
  C4, as the claim states it, fails for a registration with the empty namespace: its skip
  record is stored under the namespace \<open>app\<close>, so the second run loads the key \<open>app:m1\<close>,
  does not find the key \<open>:m1\<close> of the registration and writes a second skip record.
\<close>

theorem second_run_skips_empty_namespace_again:
  "fst (RunMigrations ex_now (defaultManager [ex_item [] ''m1'' ex_ok]) (ex_world [])) = None
   \<and> filter is_write (snd (snd (RunMigrations ex_now (defaultManager [ex_item [] ''m1'' ex_ok])
         (fst (snd (RunMigrations ex_now (defaultManager [ex_item [] ''m1'' ex_ok]) (ex_world [])))))))
       = [Ev_MarkMigrationSkipped [] ''m1'' None]
   \<and> map logKey (migration_logs (fst (snd (RunMigrations ex_now (defaultManager [ex_item [] ''m1'' ex_ok])
         (fst (snd (RunMigrations ex_now (defaultManager [ex_item [] ''m1'' ex_ok]) (ex_world []))))))))
       = [''app:m1'', ''app:m1'']"
  by (simp add: run_defs ex_defs logKey_def)

text \<open>
  C4, amended. Let every registration have a non-empty namespace, let a run of the default
  manager return without error, let the migration functions leave the log table alone, and
  start a second run with the same registrations in the world the first run left. The
  second run invokes no migration function, makes no \<open>MarkMigrationApplied\<close>,
  \<open>MarkMigrationFailed\<close> or \<open>MarkMigrationSkipped\<close> call, and leaves the log table as it
  was, whether or not it gets the lock or can load the history; the calls it records are
  all the calls it makes.
\<close>

theorem second_run_does_nothing:
  assumes "\<forall>item \<in> set items. ItemNamespace item \<noteq> []"
    and "\<forall>item \<in> set items. keeps_log_table (Func item)"
    and "RunMigrations now (defaultManager items) w = (None, w1, tr1)"
    and "RunMigrations now2 (defaultManager items) w1 = (res2, w2, tr2)"
  shows "invocations tr2 = [] \<and> filter is_write tr2 = [] \<and> migration_logs w2 = migration_logs w1
     \<and> replay now2 (defaultManager items) tr2 w1 = Some w2"
proof -
  have all: "\<forall>item \<in> set items. \<exists>row \<in> set (migration_logs w1). Success row
           \<and> Sprintf_key (Namespace row) (Migration row) = Sprintf_key (ItemNamespace item) (ItemName item)"
    using completed_run_records_every_key [OF assms(3) assms(2) assms(1)] by blast
  from run_on_recorded_keys [OF assms(4) all]
  have quiet: "invocations tr2 = []" "filter is_write tr2 = []" by simp_all
  from RunMigrations_rows [OF assms(4) assms(2)]
  obtain new where "migration_logs w2 = migration_logs w1 @ new" "map row_data new = written tr2"
    by blast
  with written_no_write [OF quiet(2)] have "migration_logs w2 = migration_logs w1" by simp
  with quiet RunMigrations_replay [OF assms(4)] show ?thesis by simp
qed

theorem second_run_does_nothing_witness:
  "ItemNamespace (ex_item ''tenantX'' ''m1'' ex_ok) \<noteq> []
   \<and> ItemNamespace (ex_item ''tenantX'' ''m2'' ex_ok) \<noteq> []
   \<and> keeps_log_table ex_ok
   \<and> fst (RunMigrations ex_now (defaultManager [ex_item ''tenantX'' ''m1'' ex_ok, ex_item ''tenantX'' ''m2'' ex_ok])
            (ex_world [])) = None
   \<and> invocations (snd (snd (RunMigrations ex_now
         (defaultManager [ex_item ''tenantX'' ''m1'' ex_ok, ex_item ''tenantX'' ''m2'' ex_ok])
         (fst (snd (RunMigrations ex_now
            (defaultManager [ex_item ''tenantX'' ''m1'' ex_ok, ex_item ''tenantX'' ''m2'' ex_ok])
            (ex_world []))))))) = []
   \<and> filter is_write (snd (snd (RunMigrations ex_now
         (defaultManager [ex_item ''tenantX'' ''m1'' ex_ok, ex_item ''tenantX'' ''m2'' ex_ok])
         (fst (snd (RunMigrations ex_now
            (defaultManager [ex_item ''tenantX'' ''m1'' ex_ok, ex_item ''tenantX'' ''m2'' ex_ok])
            (ex_world []))))))) = []"
proof -
  let ?items = "[ex_item ''tenantX'' ''m1'' ex_ok, ex_item ''tenantX'' ''m2'' ex_ok]"
  let ?X = "RunMigrations ex_now (defaultManager ?items) (ex_world [])"
  let ?Y = "RunMigrations ex_now (defaultManager ?items) (fst (snd ?X))"
  have frame: "\<forall>item \<in> set ?items. keeps_log_table (Func item)"
    by (simp add: keeps_log_table_def ex_defs)
  have ok: "fst ?X = None"
    by (simp add: run_defs ex_defs)
  have run1: "?X = (None, fst (snd ?X), snd (snd ?X))"
    using ok by (metis prod.collapse)
  have run2: "?Y = (fst ?Y, fst (snd ?Y), snd (snd ?Y))" by simp
  have keeps: "keeps_log_table ex_ok"
    by (simp add: keeps_log_table_def ex_defs)
  have named: "\<forall>item \<in> set ?items. ItemNamespace item \<noteq> []"
    by (simp add: ex_item_def)
  from second_run_does_nothing [OF named frame run1 run2] named keeps ok show ?thesis by simp
qed

section \<open>The record of a failure\<close>

text \<open>
  C6, as the claim states it, fails in three ways. The completion line is logged only after
  the function has succeeded, so the text stored for a failure holds the error, the start
  line and the lines of the function, and nothing that reads "Migration completed". A later
  run need not attempt the key again: after \<open>t:x:y\<close> was skipped and \<open>t:m2\<close> failed, the
  next run finds no two-part key for the namespace \<open>t\<close> and marks \<open>t:m2\<close> as skipped
  without invoking it. And the failure of a registration with the empty namespace is stored
  under the namespace \<open>app\<close>, so no record is written for its key \<open>:m1\<close>.
\<close>

theorem failure_record_differs:
  "Logs (last (migration_logs (fst (snd (RunMigrations ex_now (defaultManager [ex_item ''app'' ''m1'' ex_fail])
      (ex_world [ex_row ''app'' ''m0'' True]))))))
     = ''Migration failed: boom\<newline>Logs:\<newline>Starting migration: app:m1 at T0\<newline>step 1''
   \<and> \<not> Contains ''Migration failed: boom\<newline>Logs:\<newline>Starting migration: app:m1 at T0\<newline>step 1''
         ''Migration completed''
   \<and> invocations (snd (snd (RunMigrations ex_now
         (defaultManager [ex_item ''t'' ''x:y'' ex_ok, ex_item ''t'' ''m2'' ex_fail]) (ex_world [])))) = [1]
   \<and> snd (snd (RunMigrations ex_now
         (defaultManager [ex_item ''t'' ''x:y'' ex_ok, ex_item ''t'' ''m2'' ex_fail])
         (fst (snd (RunMigrations ex_now
            (defaultManager [ex_item ''t'' ''x:y'' ex_ok, ex_item ''t'' ''m2'' ex_fail]) (ex_world []))))))
       = [Ev_Lock ''migrate_lock'' 60 True None,
          Ev_GetAppliedMigrations (Inr [''t:x:y'']),
          Ev_MarkMigrationSkipped ''t'' ''m2'' None,
          Ev_Unlock ''migrate_lock'' None]
   \<and> invocations (snd (snd (RunMigrations ex_now
         (defaultManager [ex_item [] ''m0'' ex_ok, ex_item [] ''m1'' ex_fail]) (ex_world [])))) = [1]
   \<and> map logKey (migration_logs (fst (snd (RunMigrations ex_now
         (defaultManager [ex_item [] ''m0'' ex_ok, ex_item [] ''m1'' ex_fail]) (ex_world [])))))
       = [''app:m0'', ''app:m1'']"
  by (simp add: run_defs ex_defs logKey_def)

text \<open>
  C6, amended. Let every registration have a non-empty namespace, let the migration
  functions leave the log table alone, let the function of the registration at position
  \<open>i\<close> be invoked and return an error, let the \<open>MarkMigrationFailed\<close> call for it succeed,
  and let no earlier registration have the same key. Then the rows the run appends hold
  exactly one row for that key; it carries the namespace and the name of the registration
  and \<open>success = false\<close>, and its logs are exactly the error text followed by the start
  line and the lines the function logged, so they contain the start line and the error
  text. Afterwards \<open>GetAppliedMigrations\<close> does not return the key.
\<close>

theorem failure_audit:
  assumes named: "\<forall>item \<in> set items. ItemNamespace item \<noteq> []"
    and frame: "\<forall>item \<in> set items. keeps_log_table (Func item)"
    and run: "RunMigrations now (defaultManager items) w = (res, w', tr)"
    and failed: "Ev_Func i ls (Some err) \<in> set tr"
    and stored: "Ev_MarkMigrationFailed (ItemNamespace (items ! i)) (ItemName (items ! i)) msg None \<in> set tr"
    and first: "\<forall>j<i. itemKey (items ! j) \<noteq> itemKey (items ! i)"
  shows "\<exists>new row t.
       migration_logs w' = migration_logs w @ new
     \<and> filter (\<lambda>log. logKey log = itemKey (items ! i)) new = [row]
     \<and> Namespace row = ItemNamespace (items ! i) \<and> Migration row = ItemName (items ! i)
     \<and> \<not> Success row
     \<and> Logs row = failureText err (startMarker (ItemNamespace (items ! i)) (ItemName (items ! i)) t # ls)
     \<and> Contains (Logs row) (startMarker (ItemNamespace (items ! i)) (ItemName (items ! i)) t)
     \<and> Contains (Logs row) (Error err)
     \<and> (\<forall>ks w2. DefaultDatabaseMigrationStorage_GetAppliedMigrations w' = (Inr ks, w2)
            \<longrightarrow> itemKey (items ! i) \<notin> set ks)"
  using run
proof (cases rule: RunMigrations_cases)
  case (lock_error locked e)
  with failed show ?thesis by simp
next
  case contention
  with failed show ?thesis by simp
next
  case (load_error w1 e w2 ur)
  with failed show ?thesis by simp
next
  case (skip_error w1 applied w2 e appliedSet' nsHas' w3 evs1 ur)
  from failed skip_error(6) have "Ev_Func i ls (Some err) \<in> set evs1" by simp
  with bootstrap_pass_events [OF skip_error(3)] show ?thesis by blast
next
  case (executed w1 applied w2 appliedSet' nsHas' w3 evs1 w4 evs2 ur)
  let ?ns = "ItemNamespace (items ! i)"
  let ?name = "ItemName (items ! i)"
  let ?k = "itemKey (items ! i)"
  have ex: "execution_pass DefaultDatabaseMigrationStorage now appliedSet' 0 items w3 = (res, w4, evs2)"
    using executed(4) by simp
  have bs: "bootstrap_pass DefaultDatabaseMigrationStorage items (build_appliedSet applied Map.empty)
         (build_namespaceHasRecords applied Map.empty) w2 = (None, appliedSet', nsHas', w3, evs1)"
    using executed(3) by simp
  have "Ev_Func i ls (Some err) \<notin> set evs1"
    using bootstrap_pass_events [OF bs] by blast
  with failed executed(6) have mem: "Ev_Func i ls (Some err) \<in> set evs2" by simp
  from execution_pass_failure_prefix [OF ex mem]
  obtain pre t r where
    evs2: "evs2 = pre @ [Ev_Func i ls (Some err),
                   Ev_MarkMigrationFailed ?ns ?name (failureText err (startMarker ?ns ?name t # ls)) r]"
    and pre: "\<forall>ev \<in> set pre.
            (\<exists>j ls'. ev = Ev_Func j ls' None)
            \<or> (\<exists>j. j < i \<and> ev = Ev_MarkMigrationApplied (ItemNamespace (items ! j)) (ItemName (items ! j)) None)"
    by auto
  let ?msg = "failureText err (startMarker ?ns ?name t # ls)"
  have "i \<in> set (invocations evs2)"
    using evs2 by simp
  from execution_pass_invoked [OF ex this]
  have notap: "\<not> map_index appliedSet' ?k" and len: "i < length items"
    by (simp_all add: itemKey_def)
  have nsi: "stored_namespace ?ns = ?ns"
    using named len by (simp add: stored_namespace_nonempty)
  have nsj: "stored_namespace (ItemNamespace (items ! j)) = ItemNamespace (items ! j)" if "j < i" for j
    using named len that by (simp add: stored_namespace_nonempty)
  \<comment> \<open>the stored event is the one that follows the failing call\<close>
  have "Ev_MarkMigrationFailed ?ns ?name msg None \<notin> set evs1"
    using bootstrap_pass_events [OF bs] by blast
  moreover have "Ev_MarkMigrationFailed ?ns ?name msg None \<notin> set pre"
    using pre by blast
  ultimately have r: "r = None" and msg: "msg = ?msg"
    using stored executed(6) evs2 by auto
  \<comment> \<open>the rows written by the run\<close>
  have wtr: "written tr = (written evs1 @ written pre) @ [(?ns, ?name, ?msg, False)]"
    using executed(6) evs2 r nsi by simp
  from RunMigrations_rows [OF run frame]
  obtain new where logs: "migration_logs w' = migration_logs w @ new"
    and new: "map row_data new = written tr"
    by blast
  have m: "map row_data new = (written evs1 @ written pre) @ [(?ns, ?name, ?msg, False)]"
    using new wtr by simp
  then have ne: "new \<noteq> []" by auto
  define new_a where "new_a = butlast new"
  define row where "row = last new"
  have split: "new = new_a @ [row]"
    using ne by (simp add: new_a_def row_def)
  have "map row_data new_a @ [row_data row] = (written evs1 @ written pre) @ [(?ns, ?name, ?msg, False)]"
    using m by (simp add: split)
  then have new_a: "map row_data new_a = written evs1 @ written pre"
    and row: "row_data row = (?ns, ?name, ?msg, False)"
    by simp_all
  have others: "logKey log \<noteq> ?k" if "log \<in> set new_a" for log
  proof -
    from that have "row_data log \<in> set (map row_data new_a)"
      by simp
    then have "row_data log \<in> set (written evs1 @ written pre)"
      by (simp only: new_a)
    then have "row_data log \<in> set (written evs1) \<union> set (written pre)"
      by simp
    then show ?thesis
    proof
      assume "row_data log \<in> set (written evs1)"
      from written_mem [OF this] obtain ev where ev: "ev \<in> set evs1" "written_row ev = Some (row_data log)"
        by blast
      from bootstrap_pass_events [OF bs ev(1)] obtain ns n r' where e: "ev = Ev_MarkMigrationSkipped ns n r'"
        by blast
      from ev(1) e have "Ev_MarkMigrationSkipped ns n r' \<in> set evs1"
        by simp
      from bootstrap_pass_events_item [OF bs this] named have "ns \<noteq> []"
        by auto
      with e ev(2) have "r' = None" "Namespace log = ns" "Migration log = n"
        by (cases r'; simp add: row_data_def stored_namespace_nonempty)+
      with e ev(1) bootstrap_pass_skipped_key [OF bs, of ns n]
      have "map_index appliedSet' (logKey log)"
        by (simp add: logKey_def)
      with notap show ?thesis by auto
    next
      assume "row_data log \<in> set (written pre)"
      from written_mem [OF this] obtain ev where ev: "ev \<in> set pre" "written_row ev = Some (row_data log)"
        by blast
      with pre obtain j where j: "j < i"
        "ev = Ev_MarkMigrationApplied (ItemNamespace (items ! j)) (ItemName (items ! j)) None"
        by fastforce
      with ev(2) nsj [OF j(1)] have "logKey log = itemKey (items ! j)"
        by (simp add: row_data_def logKey_def itemKey_def)
      with first j(1) show ?thesis by simp
    qed
  qed
  have rowk: "logKey row = ?k" "Namespace row = ?ns" "Migration row = ?name" "\<not> Success row" "Logs row = ?msg"
    using row by (simp_all add: row_data_def logKey_def itemKey_def)
  have "filter (\<lambda>log. logKey log = ?k) new_a = []"
    using others by (simp add: filter_empty_conv)
  then have filt: "filter (\<lambda>log. logKey log = ?k) new = [row]"
    using rowk(1) by (simp add: split)
  have cont: "Contains (Logs row) (startMarker ?ns ?name t)" "Contains (Logs row) (Error err)"
    using failureText_Contains [of err "startMarker ?ns ?name t" ls] rowk(5) by simp_all
  \<comment> \<open>no successful row for the key, before or after\<close>
  have old: "logKey log \<noteq> ?k" if "log \<in> set (migration_logs w)" "Success log" for log
  proof
    assume k: "logKey log = ?k"
    have "migration_logs w1 = migration_logs w"
      using executed(1) by (simp add: RedisLockProvider_Lock_logs)
    moreover have "applied = map (\<lambda>log. Sprintf_key (Namespace log) (Migration log)) (filter Success (migration_logs w1))"
      using executed(2) GetAppliedMigrations_keys [of w1 applied w2] by simp
    ultimately have "?k \<in> set applied"
      using that k by (force simp: logKey_def)
    then have "map_index (build_appliedSet applied Map.empty) ?k"
      by (simp add: map_index_build_appliedSet)
    from bootstrap_pass_appliedSet_mono [OF bs this] notap show False by simp
  qed
  have absent: "itemKey (items ! i) \<notin> set ks"
    if "DefaultDatabaseMigrationStorage_GetAppliedMigrations w' = (Inr ks, wx)" for ks wx
  proof
    assume "itemKey (items ! i) \<in> set ks"
    with GetAppliedMigrations_keys [OF that]
    obtain log where log: "log \<in> set (migration_logs w')" "Success log" "logKey log = ?k"
      by (auto simp: logKey_def)
    from log(1) have "log \<in> set (migration_logs w) \<or> log \<in> set new_a \<or> log = row"
      by (auto simp: logs split)
    with log(2,3) old others rowk(4) show False by blast
  qed
  from logs filt rowk cont absent show ?thesis by blast
qed

theorem failure_audit_witness:
  "ItemNamespace (ex_item ''app'' ''m1'' ex_ok) \<noteq> []
   \<and> ItemNamespace (ex_item ''app'' ''m2'' ex_fail) \<noteq> []
   \<and> keeps_log_table ex_ok \<and> keeps_log_table ex_fail
   \<and> itemKey ([ex_item ''app'' ''m1'' ex_ok, ex_item ''app'' ''m2'' ex_fail] ! 0)
         \<noteq> itemKey ([ex_item ''app'' ''m1'' ex_ok, ex_item ''app'' ''m2'' ex_fail] ! 1)
   \<and> (\<exists>new row t.
        migration_logs (fst (snd (RunMigrations ex_now
            (defaultManager [ex_item ''app'' ''m1'' ex_ok, ex_item ''app'' ''m2'' ex_fail])
            (ex_world [ex_row ''app'' ''m0'' True]))))
          = migration_logs (ex_world [ex_row ''app'' ''m0'' True]) @ new
      \<and> filter (\<lambda>log. logKey log = ''app:m2'') new = [row]
      \<and> \<not> Success row
      \<and> Logs row = failureText (ErrorString ''boom'') (startMarker ''app'' ''m2'' t # [''step 1''])
      \<and> Contains (Logs row) (startMarker ''app'' ''m2'' t)
      \<and> Contains (Logs row) ''boom'')"
proof -
  let ?items = "[ex_item ''app'' ''m1'' ex_ok, ex_item ''app'' ''m2'' ex_fail]"
  let ?w = "ex_world [ex_row ''app'' ''m0'' True]"
  let ?X = "RunMigrations ex_now (defaultManager ?items) ?w"
  have frame: "\<forall>item \<in> set ?items. keeps_log_table (Func item)"
    by (simp add: keeps_log_table_def ex_defs)
  have run: "?X = (fst ?X, fst (snd ?X), snd (snd ?X))" by simp
  have tr: "snd (snd ?X) =
      [Ev_Lock ''migrate_lock'' 60 True None,
       Ev_GetAppliedMigrations (Inr [''app:m0'']),
       Ev_Func 0 [] None,
       Ev_MarkMigrationApplied ''app'' ''m1'' None,
       Ev_Func 1 [''step 1''] (Some (ErrorString ''boom'')),
       Ev_MarkMigrationFailed ''app'' ''m2''
         (failureText (ErrorString ''boom'') [startMarker ''app'' ''m2'' ''T0'', ''step 1'']) None,
       Ev_Unlock ''migrate_lock'' None]"
    by (simp add: run_defs ex_defs text_defs)
  have failed: "Ev_Func 1 [''step 1''] (Some (ErrorString ''boom'')) \<in> set (snd (snd ?X))"
    by (simp add: tr)
  have k: "itemKey (?items ! 1) = ''app:m2''" "ItemNamespace (?items ! 1) = ''app''" "ItemName (?items ! 1) = ''m2''"
    by (simp_all add: itemKey_def ex_item_def Sprintf_key_def)
  have stored: "Ev_MarkMigrationFailed (ItemNamespace (?items ! 1)) (ItemName (?items ! 1))
         (failureText (ErrorString ''boom'') [startMarker ''app'' ''m2'' ''T0'', ''step 1'']) None
       \<in> set (snd (snd ?X))"
    unfolding k by (simp add: tr)
  have first: "\<forall>j<1. itemKey (?items ! j) \<noteq> itemKey (?items ! 1)"
    by (simp add: itemKey_def ex_item_def Sprintf_key_def)
  have named: "\<forall>item \<in> set ?items. ItemNamespace item \<noteq> []"
    by (simp add: ex_item_def)
  from failure_audit [OF named frame run failed stored first]
  obtain new row t where
    "migration_logs (fst (snd ?X)) = migration_logs ?w @ new"
    "filter (\<lambda>log. logKey log = ''app:m2'') new = [row]"
    "\<not> Success row"
    "Logs row = failureText (ErrorString ''boom'') (startMarker ''app'' ''m2'' t # [''step 1''])"
    "Contains (Logs row) (startMarker ''app'' ''m2'' t)"
    "Contains (Logs row) ''boom''"
    unfolding k by auto
  moreover have "keeps_log_table ex_ok" "keeps_log_table ex_fail"
    by (simp_all add: keeps_log_table_def ex_defs)
  moreover have "itemKey (?items ! 0) \<noteq> itemKey (?items ! 1)"
    by (simp add: itemKey_def ex_item_def Sprintf_key_def)
  moreover have "ItemNamespace (ex_item ''app'' ''m1'' ex_ok) \<noteq> []"
    "ItemNamespace (ex_item ''app'' ''m2'' ex_fail) \<noteq> []"
    by (simp_all add: ex_item_def)
  ultimately show ?thesis by blast
qed

end
